theory Spec2Isabelle
  imports Main "HOL-Library.Sublist"
begin

section \<open>JavaScript collections\<close>

text \<open>
  A JavaScript \<open>Set<T>\<close> iterates in insertion order and holds no duplicates; a
  \<open>Map<K, V>\<close> iterates its entries in insertion order of the keys and holds each key
  once. Both are modelled as lists: a set as the list of its elements, a map as the list
  of its entries. \<open>Set.add\<close> appends an element that is not yet there, \<open>Map.set\<close>
  replaces the value of a key in place or appends a new entry.
\<close>

type_synonym 'a jsset = "'a list"
type_synonym ('k, 'v) jsmap = "('k \<times> 'v) list"

definition set_has :: "'a jsset \<Rightarrow> 'a \<Rightarrow> bool" where
  "set_has s x = (x \<in> set s)"

definition set_add :: "'a jsset \<Rightarrow> 'a \<Rightarrow> 'a jsset" where
  "set_add s x = (if set_has s x then s else s @ [x])"

definition set_delete :: "'a jsset \<Rightarrow> 'a \<Rightarrow> 'a jsset" where
  "set_delete s x = removeAll x s"

definition map_get :: "('k, 'v) jsmap \<Rightarrow> 'k \<Rightarrow> 'v option" where
  "map_get m k = map_of m k"

definition map_has :: "('k, 'v) jsmap \<Rightarrow> 'k \<Rightarrow> bool" where
  "map_has m k = (k \<in> fst ` set m)"

primrec map_set :: "('k, 'v) jsmap \<Rightarrow> 'k \<Rightarrow> 'v \<Rightarrow> ('k, 'v) jsmap" where
  "map_set [] k v = [(k, v)]"
| "map_set (p # ps) k v = (if fst p = k then (k, v) # ps else p # map_set ps k v)"

text \<open>The keys of a \<open>Map\<close> are pairwise different.\<close>

definition wf_map :: "('k, 'v) jsmap \<Rightarrow> bool" where
  "wf_map m = distinct (map fst m)"

section \<open>Errors\<close>

text \<open>
  \<open>Error\<close> is a thrown \<open>new Error(message)\<close>, \<open>TypeError\<close> a thrown
  \<open>new TypeError(message)\<close>. The three directive errors carry the message given to the
  constructor of \<open>DirectiveProcessorError\<close>, the file name, the line and the column.
\<close>

datatype error =
    Error string
  | TypeError string
  | DirectiveProcessorSyntaxError string string nat nat
  | DirectiveProcessorParseError string string nat nat
  | DirectiveProcessorValidationError string string nat nat

text \<open>\<open>assertNonNull(val, message)\<close>: \<open>None\<close> stands for \<open>undefined\<close>.\<close>

definition assertNonNull :: "'a option \<Rightarrow> string \<Rightarrow> error + 'a" where
  "assertNonNull val message = (case val of None \<Rightarrow> Inl (Error message) | Some v \<Rightarrow> Inr v)"

section \<open>The stack of \<open>walkDfs\<close>\<close>

text \<open>
  \<open>class Stack<T>\<close> keeps an array and pushes and pops at its end. The model keeps the
  top of the stack at the head of the list.
\<close>

definition stack_add :: "'a list \<Rightarrow> 'a \<Rightarrow> 'a list" where
  "stack_add stack val = val # stack"

definition stack_addMany :: "'a list \<Rightarrow> 'a list \<Rightarrow> 'a list" where
  "stack_addMany stack vals = fold (\<lambda>val st. stack_add st val) vals stack"

definition stack_isEmpty :: "'a list \<Rightarrow> bool" where
  "stack_isEmpty stack = (length stack = 0)"

definition stack_next :: "'a list \<Rightarrow> error + ('a \<times> 'a list)" where
  "stack_next stack =
     (case assertNonNull (case stack of [] \<Rightarrow> None | v # _ \<Rightarrow> Some v)
             ''tried to pop from an empty stack'' of
        Inl e \<Rightarrow> Inl e
      | Inr v \<Rightarrow> Inr (v, tl stack))"

section \<open>The directed graph\<close>

text \<open>\<open>class DirectedGraph<T>\<close> wraps its edges, a \<open>Map<T, Set<T>>\<close>.\<close>

type_synonym 'a graph = "('a, 'a jsset) jsmap"

text \<open>
  The edges that a walk sees: \<open>b\<close> is in the set that \<open>edges.get(a)\<close> returns. The
  edges that iterating over the entries sees: \<open>b\<close> is in the set of an entry of \<open>a\<close>.
  On a map (\<open>wf_map\<close>) they are the same pairs.
\<close>

definition edges_of :: "'a graph \<Rightarrow> ('a \<times> 'a) set" where
  "edges_of g = {(a, b). \<exists>bs. map_get g a = Some bs \<and> b \<in> set bs}"

definition entry_edges :: "'a graph \<Rightarrow> ('a \<times> 'a) set" where
  "entry_edges g = {(a, b). \<exists>bs. (a, bs) \<in> set g \<and> b \<in> set bs}"

definition targets :: "'a graph \<Rightarrow> 'a set" where
  "targets g = (\<Union>e \<in> set g. set (snd e))"

subsection \<open>\<open>transpose\<close>\<close>

text \<open>The inner loop of \<open>transpose\<close>, over the endpoints of one node.\<close>

fun transpose_endpoints :: "'a \<Rightarrow> 'a list \<Rightarrow> 'a graph \<Rightarrow> error + 'a graph" where
  "transpose_endpoints node [] invertedEdges = Inr invertedEdges"
| "transpose_endpoints node (endpointNode # rest) invertedEdges =
     (if map_has invertedEdges endpointNode then
        (case assertNonNull (map_get invertedEdges endpointNode)
                ''expected outNodes to not be null'' of
           Inl e \<Rightarrow> Inl e
         | Inr outNodes \<Rightarrow>
             transpose_endpoints node rest
               (map_set invertedEdges endpointNode (set_add outNodes node)))
      else transpose_endpoints node rest (map_set invertedEdges endpointNode [node]))"

text \<open>The outer loop, over the entries of the edge map.\<close>

fun transpose_entries :: "'a graph \<Rightarrow> 'a graph \<Rightarrow> error + 'a graph" where
  "transpose_entries [] invertedEdges = Inr invertedEdges"
| "transpose_entries ((node, endpointNodes) # rest) invertedEdges =
     (case transpose_endpoints node endpointNodes invertedEdges of
        Inl e \<Rightarrow> Inl e
      | Inr inverted \<Rightarrow> transpose_entries rest inverted)"

text \<open>\<open>transpose()\<close>; named \<open>transpose_graph\<close> here, beside the \<open>transpose\<close> of lists.\<close>

definition transpose_graph :: "'a graph \<Rightarrow> error + 'a graph" where
  "transpose_graph g = transpose_entries g []"

subsection \<open>\<open>walkDfs\<close> and \<open>manyWalkDfs\<close>\<close>

text \<open>
  The generator \<open>walkDfs\<close> is run to its end: the model returns the nodes it yields, in
  order, after those yielded so far, together with the visited set it has updated.
\<close>

function walkDfs_loop ::
  "'a graph \<Rightarrow> 'a list \<Rightarrow> 'a jsset \<Rightarrow> 'a list \<Rightarrow> error + ('a list \<times> 'a jsset)" where
  "walkDfs_loop g toVisit visited yielded =
     (if stack_isEmpty toVisit then Inr (yielded, visited)
      else
        (case stack_next toVisit of
           Inl e \<Rightarrow> Inl e
         | Inr (node, toVisit') \<Rightarrow>
             if set_has visited node then walkDfs_loop g toVisit' visited yielded
             else
               (case map_get g node of
                  Some outNodes \<Rightarrow>
                    walkDfs_loop g (stack_addMany toVisit' outNodes) (set_add visited node)
                      (yielded @ [node])
                | None \<Rightarrow>
                    walkDfs_loop g toVisit' (set_add visited node) (yielded @ [node]))))"
  by pat_completeness auto

lemma map_get_targets: "map_get g a = Some bs \<Longrightarrow> set bs \<subseteq> targets g"
  unfolding map_get_def targets_def by (auto dest!: map_of_SomeD)

lemma finite_targets: "finite (targets g)"
  by (simp add: targets_def)

lemma stack_next_Cons: "stack_next (v # st) = Inr (v, st)"
  by (simp add: stack_next_def assertNonNull_def)

lemma stack_next_Inr:
  "stack_next st = Inr (v, st') \<Longrightarrow> st = v # st'"
  by (cases st) (auto simp: stack_next_def assertNonNull_def)

lemma set_stack_addMany: "set (stack_addMany st vals) = set vals \<union> set st"
  unfolding stack_addMany_def
  by (induction vals arbitrary: st) (auto simp: stack_add_def)

lemma set_set_add: "set (set_add s x) = insert x (set s)"
  by (auto simp: set_add_def set_has_def)

termination walkDfs_loop
proof (relation "measures
    [\<lambda>(g, toVisit, visited, yielded). card ((targets g \<union> set toVisit) - set visited),
     \<lambda>(g, toVisit, visited, yielded). length toVisit]", goal_cases)
  case 1
  show ?case by simp
next
  case (2 g toVisit visited yielded b node toVisit')
  then have st: "toVisit = node # toVisit'" by (simp add: stack_next_Inr)
  have "card ((targets g \<union> set toVisit') - set visited)
          \<le> card ((targets g \<union> set toVisit) - set visited)"
    by (rule card_mono) (auto simp: st finite_targets)
  then show ?case by (auto simp: st)
next
  case (3 g toVisit visited yielded b node toVisit')
  then have st: "toVisit = node # toVisit'" by (simp add: stack_next_Inr)
  from 3 have nv: "node \<notin> set visited" by (simp add: set_has_def)
  have "(targets g \<union> set toVisit') - set (set_add visited node)
          \<subset> (targets g \<union> set toVisit) - set visited"
    using nv by (auto simp: st set_set_add)
  then have "card ((targets g \<union> set toVisit') - set (set_add visited node))
          < card ((targets g \<union> set toVisit) - set visited)"
    by (intro psubset_card_mono) (auto simp: finite_targets)
  then show ?case by simp
next
  case (4 g toVisit visited yielded b node toVisit' outNodes)
  then have st: "toVisit = node # toVisit'" by (simp add: stack_next_Inr)
  from 4 have nv: "node \<notin> set visited" by (simp add: set_has_def)
  from 4 have sub: "set outNodes \<subseteq> targets g" by (simp add: map_get_targets)
  have "(targets g \<union> set (stack_addMany toVisit' outNodes)) - set (set_add visited node)
          \<subset> (targets g \<union> set toVisit) - set visited"
    using nv sub by (auto simp: st set_stack_addMany set_set_add)
  then have "card ((targets g \<union> set (stack_addMany toVisit' outNodes))
                 - set (set_add visited node))
          < card ((targets g \<union> set toVisit) - set visited)"
    by (intro psubset_card_mono) (auto simp: finite_targets)
  then show ?case by simp
qed

declare walkDfs_loop.simps [simp del]

text \<open>\<open>walkDfs(entrypoint, visited)\<close>: a fresh stack holding the entrypoint.\<close>

definition walkDfs :: "'a graph \<Rightarrow> 'a \<Rightarrow> 'a jsset \<Rightarrow> error + ('a list \<times> 'a jsset)" where
  "walkDfs g entrypoint visited = walkDfs_loop g (stack_add [] entrypoint) visited []"

text \<open>
  \<open>manyWalkDfs(entrypoints)\<close>: one walk for each entrypoint in order, all of them on
  one visited set; the yields of the walks follow each other.
\<close>

fun manyWalkDfs_loop ::
  "'a graph \<Rightarrow> 'a list \<Rightarrow> 'a jsset \<Rightarrow> error + ('a list \<times> 'a jsset)" where
  "manyWalkDfs_loop g [] visited = Inr ([], visited)"
| "manyWalkDfs_loop g (entrypoint # rest) visited =
     (case walkDfs g entrypoint visited of
        Inl e \<Rightarrow> Inl e
      | Inr (ys, visited') \<Rightarrow>
          (case manyWalkDfs_loop g rest visited' of
             Inl e \<Rightarrow> Inl e
           | Inr (zs, visited'') \<Rightarrow> Inr (ys @ zs, visited'')))"

definition manyWalkDfs :: "'a graph \<Rightarrow> 'a list \<Rightarrow> error + 'a list" where
  "manyWalkDfs g entrypoints = map_sum id fst (manyWalkDfs_loop g entrypoints [])"

text \<open>The successors that \<open>walkDfs\<close> pushes for a node: none when the node is no key.\<close>

definition succs :: "'a graph \<Rightarrow> 'a \<Rightarrow> 'a list" where
  "succs g node = (case map_get g node of None \<Rightarrow> [] | Some outNodes \<Rightarrow> outNodes)"

section \<open>The dependency tree\<close>

type_synonym path = string
type_synonym fileToDeps = "(path, path jsset) jsmap"

subsection \<open>The queries\<close>

definition findRelatedFiles :: "path graph \<Rightarrow> path list \<Rightarrow> error + path jsset" where
  "findRelatedFiles graph files =
     (case manyWalkDfs graph files of
        Inl e \<Rightarrow> Inl e
      | Inr yielded \<Rightarrow>
          Inr (fold (\<lambda>file visited. set_delete visited file) files
                 (fold (\<lambda>referencingFile visited. set_add visited referencingFile)
                    yielded [])))"

definition getDependencies :: "fileToDeps \<Rightarrow> path list \<Rightarrow> error + path jsset" where
  "getDependencies fileToDeps files = findRelatedFiles fileToDeps files"

definition getReferences :: "fileToDeps \<Rightarrow> path list \<Rightarrow> error + path jsset" where
  "getReferences fileToDeps files =
     (case transpose_graph fileToDeps of
        Inl e \<Rightarrow> Inl e
      | Inr graph \<Rightarrow> findRelatedFiles graph files)"

subsection \<open>What a \<open>DependencyTree\<close> is given\<close>

text \<open>
  The resolver is injected (\<open>enhanced-resolve\<close> by default): \<open>resolveSync\<close> throws
  or returns a value, \<open>None\<close> standing for a value that is no string (\<open>undefined\<close>,
  \<open>false\<close>). JavaScript can throw any value: \<open>Nullish\<close> is a thrown \<open>undefined\<close> or
  \<open>null\<close>, of which no property can be read, \<open>HasMessage\<close> any other thrown value,
  with what reading its property \<open>message\<close> gives.
\<close>

datatype thrown = Nullish | HasMessage string

datatype resolveResult = Throws thrown | Returns "string option"

text \<open>A reference is \<open>string[] | string\<close>.\<close>

datatype reference = One string | Many "string list"

text \<open>
  A file processor (\<open>interface FileProcessor\<close>). \<open>process\<close> is given the file, its
  contents, the missing map and all files; it may add to the missing map, so the model
  returns the map with the imported files, or the error it throws.
\<close>

record processor =
  match :: "path \<Rightarrow> bool"
  supportedFileTypes :: "string list"
  process :: "path \<Rightarrow> string \<Rightarrow> fileToDeps \<Rightarrow> path list \<Rightarrow> error + (path jsset \<times> fileToDeps)"

text \<open>
  The fields of the instance (\<open>rootDirs\<close>, \<open>resolveSync\<close> for
  \<open>resolver.resolveSync({}, dir, reference)\<close>, \<open>ignoreGlobs\<close>, \<open>transformReference\<close>,
  \<open>fileProcessors\<close>) and the library functions that the class calls: the set
  \<open>builtinModules\<close> of the package \<open>builtin-modules\<close>, \<open>path.dirname\<close>,
  \<open>fs.readFileSync(file, "utf8")\<close> and \<open>fg.sync(pattern, {cwd, ignore, absolute})\<close>
  of \<open>fast-glob\<close>. The libraries are not part of the repository and are parameters.
\<close>

record dependencyTree =
  rootDirs :: "path list"
  resolveSync :: "string \<Rightarrow> string \<Rightarrow> resolveResult"
  ignoreGlobs :: "string list"
  transformReference :: "string \<Rightarrow> string \<Rightarrow> reference"
  fileProcessors :: "processor list"
  builtinModules :: "string jsset"
  dirname :: "string \<Rightarrow> string"
  readFileSync :: "path \<Rightarrow> error + string"
  fg_sync :: "string \<Rightarrow> path \<Rightarrow> string list \<Rightarrow> path list"

subsection \<open>\<open>resolveAndCollect\<close>\<close>

text \<open>
  The two collections that \<open>resolveAndCollect\<close> updates in place, and the calls of
  \<open>resolveSync\<close> made so far, each with its directory and reference. The calls of the
  logger (\<open>debug\<close>, \<open>error\<close>) write to the console only and are left out.
\<close>

record collected =
  importedModules :: "path jsset"
  missingModules :: fileToDeps
  resolverCalls :: "(string \<times> string) list"

text \<open>The end of the function, reached when the reference was not resolved.\<close>

definition recordMissing :: "path \<Rightarrow> string \<Rightarrow> collected \<Rightarrow> collected" where
  "recordMissing file referencedModule st =
     (if referencedModule \<noteq> [] then
        (let missingFileDeps =
               (case map_get (missingModules st) file of Some s \<Rightarrow> s | None \<Rightarrow> [])
         in st\<lparr>missingModules :=
                 map_set (missingModules st) file (set_add missingFileDeps referencedModule)\<rparr>)
      else st)"

text \<open>The message of the engine when \<open>message\<close> is read of \<open>undefined\<close>.\<close>

definition cannotReadMessage :: string where
  "cannotReadMessage =
     ''Cannot read properties of undefined (reading '' @ [CHR 0x27] @ ''message''
     @ [CHR 0x27] @ '')''"

text \<open>
  The function on a reference that is one string. It returns nothing; the model returns
  the error that leaves it, if any, and the collections as they are then. The \<open>try\<close>
  catches whatever the resolver throws, and the handler reads \<open>e.message\<close> for the
  logger: of a thrown \<open>undefined\<close> or \<open>null\<close> that read throws a \<open>TypeError\<close>, which
  leaves the function.
\<close>

definition resolveAndCollect_string ::
  "dependencyTree \<Rightarrow> path \<Rightarrow> string \<Rightarrow> collected \<Rightarrow> error option \<times> collected" where
  "resolveAndCollect_string tree file referencedModule st =
     (if set_has (builtinModules tree) referencedModule then (None, st)
      else
        (let st' = st\<lparr>resolverCalls :=
                        resolverCalls st @ [(dirname tree file, referencedModule)]\<rparr>
         in case resolveSync tree (dirname tree file) referencedModule of
              Returns (Some resolved) \<Rightarrow>
                if resolved \<noteq> [] then
                  (None, st'\<lparr>importedModules := set_add (importedModules st') resolved\<rparr>)
                else (None, recordMissing file referencedModule st')
            | Returns None \<Rightarrow> (None, recordMissing file referencedModule st')
            | Throws Nullish \<Rightarrow>
                (Some (TypeError cannotReadMessage), st')
            | Throws (HasMessage m) \<Rightarrow> (None, recordMissing file referencedModule st')))"

text \<open>
  On an array the function calls itself on each element, and each is a string; an error
  that leaves one of the calls leaves the loop.
\<close>

fun resolveAndCollect_array ::
  "dependencyTree \<Rightarrow> path \<Rightarrow> string list \<Rightarrow> collected \<Rightarrow> error option \<times> collected" where
  "resolveAndCollect_array tree file [] st = (None, st)"
| "resolveAndCollect_array tree file (m # rest) st =
     (case resolveAndCollect_string tree file m st of
        (Some e, st') \<Rightarrow> (Some e, st')
      | (None, st') \<Rightarrow> resolveAndCollect_array tree file rest st')"

primrec resolveAndCollect ::
  "dependencyTree \<Rightarrow> path \<Rightarrow> reference \<Rightarrow> collected \<Rightarrow> error option \<times> collected" where
  "resolveAndCollect tree file (Many referencedModule) st =
     resolveAndCollect_array tree file referencedModule st"
| "resolveAndCollect tree file (One referencedModule) st =
     resolveAndCollect_string tree file referencedModule st"

subsection \<open>\<open>gather\<close>\<close>

text \<open>\<open>Array.prototype.join\<close> on strings.\<close>

fun join :: "string \<Rightarrow> string list \<Rightarrow> string" where
  "join sep [] = []"
| "join sep [x] = x"
| "join sep (x # y # ys) = x @ sep @ join sep (y # ys)"

definition getFiles :: "dependencyTree \<Rightarrow> path list" where
  "getFiles tree =
     (let supported =
            fold (\<lambda>t s. set_add s t)
              (fold (\<lambda>processor acc. acc @ supportedFileTypes processor)
                 (fileProcessors tree) [])
              []
      in fold (\<lambda>rootDir acc.
                 acc @ fg_sync tree (''**/*.{'' @ join '','' supported @ ''}'') rootDir
                         (ignoreGlobs tree))
           (rootDirs tree) [])"

text \<open>
  The loop of \<open>getImportedFiles\<close> over the file processors; \<open>matched\<close> is the flag
  of the source.
\<close>

fun getImportedFiles_loop ::
  "processor list \<Rightarrow> path \<Rightarrow> string \<Rightarrow> path list \<Rightarrow> path jsset \<Rightarrow> bool \<Rightarrow> fileToDeps
     \<Rightarrow> error + (path jsset \<times> bool \<times> fileToDeps)" where
  "getImportedFiles_loop [] file contents files allImported matched missing =
     Inr (allImported, matched, missing)"
| "getImportedFiles_loop (fileProcessor # rest) file contents files allImported matched missing =
     (if match fileProcessor file then
        (case process fileProcessor file contents missing files of
           Inl e \<Rightarrow> Inl e
         | Inr (importedFiles, missing') \<Rightarrow>
             getImportedFiles_loop rest file contents files
               (fold (\<lambda>imported s. set_add s imported) importedFiles allImported)
               True missing')
      else getImportedFiles_loop rest file contents files allImported matched missing)"

definition getImportedFiles ::
  "dependencyTree \<Rightarrow> path \<Rightarrow> fileToDeps \<Rightarrow> path list \<Rightarrow> error + (path jsset \<times> fileToDeps)" where
  "getImportedFiles tree file missing files =
     (case readFileSync tree file of
        Inl e \<Rightarrow> Inl e
      | Inr contents \<Rightarrow>
          (case getImportedFiles_loop (fileProcessors tree) file contents files [] False missing of
             Inl e \<Rightarrow> Inl e
           | Inr (allImported, matched, missing') \<Rightarrow>
               if \<not> matched then Inl (Error (''No file processor matches '' @ file))
               else Inr (allImported, missing')))"

record gathered =
  missing :: fileToDeps
  resolved :: fileToDeps

text \<open>
  The loop of \<open>gather\<close> over the files. \<open>missingDeps\<close> is the variable \<open>missing\<close>
  of the source, renamed beside the field of the result.
\<close>

fun gather_loop ::
  "dependencyTree \<Rightarrow> path list \<Rightarrow> path list \<Rightarrow> fileToDeps \<Rightarrow> fileToDeps \<Rightarrow> error + gathered" where
  "gather_loop tree files [] fileToDeps missingDeps =
     Inr \<lparr>missing = missingDeps, resolved = fileToDeps\<rparr>"
| "gather_loop tree files (file # rest) fileToDeps missingDeps =
     (case getImportedFiles tree file missingDeps files of
        Inl e \<Rightarrow> Inl e
      | Inr (importedFiles, missingDeps') \<Rightarrow>
          gather_loop tree files rest (map_set fileToDeps file importedFiles) missingDeps')"

definition gather :: "dependencyTree \<Rightarrow> error + gathered" where
  "gather tree = (let files = getFiles tree in gather_loop tree files files [] [])"

text \<open>
  The tests call \<open>gather({ batchSize: n })\<close>. The function declares no parameter, so
  the argument of such a call is dropped.
\<close>

record gatherOptions =
  batchSize :: "int option"

definition gather_call :: "dependencyTree \<Rightarrow> gatherOptions \<Rightarrow> error + gathered" where
  "gather_call tree options = gather tree"

subsection \<open>Notions of the statements\<close>

text \<open>
  The resolver fails on a reference: it throws a value whose message can be read, or what
  it returns is no resolved path (no string, or the empty string, which the test
  \<open>if (resolved)\<close> takes as false).
\<close>

definition resolver_fails :: "dependencyTree \<Rightarrow> path \<Rightarrow> string \<Rightarrow> bool" where
  "resolver_fails tree file referencedModule =
     (case resolveSync tree (dirname tree file) referencedModule of
        Throws Nullish \<Rightarrow> False
      | Throws (HasMessage m) \<Rightarrow> True
      | Returns r \<Rightarrow> r = None \<or> r = Some [])"

text \<open>
  The call on a reference is left by an error: the reference is no built-in and the
  resolver throws \<open>undefined\<close> or \<open>null\<close> on it.
\<close>

definition aborts :: "dependencyTree \<Rightarrow> path \<Rightarrow> string \<Rightarrow> bool" where
  "aborts tree file referencedModule =
     (\<not> set_has (builtinModules tree) referencedModule
      \<and> resolveSync tree (dirname tree file) referencedModule = Throws Nullish)"

text \<open>The reference strings held under the key of a file in a missing map.\<close>

definition missing_of :: "fileToDeps \<Rightarrow> path \<Rightarrow> string set" where
  "missing_of m file = (case map_get m file of Some s \<Rightarrow> set s | None \<Rightarrow> {})"

text \<open>The references that end in the missing map.\<close>

definition is_missing :: "dependencyTree \<Rightarrow> path \<Rightarrow> string \<Rightarrow> bool" where
  "is_missing tree file m =
     (\<not> set_has (builtinModules tree) m \<and> m \<noteq> [] \<and> resolver_fails tree file m)"

text \<open>
  A resolver that returns no path where the given one throws a value whose message can
  be read.
\<close>

definition no_throw :: "(string \<Rightarrow> string \<Rightarrow> resolveResult) \<Rightarrow> string \<Rightarrow> string \<Rightarrow> resolveResult" where
  "no_throw f dir r =
     (case f dir r of
        Throws Nullish \<Rightarrow> Throws Nullish
      | Throws (HasMessage m) \<Rightarrow> Returns None
      | Returns x \<Rightarrow> Returns x)"

text \<open>What one string does to the imported set depends on the imported set alone.\<close>

definition imported_step :: "dependencyTree \<Rightarrow> path \<Rightarrow> string \<Rightarrow> path jsset \<Rightarrow> path jsset" where
  "imported_step tree file m imp =
     importedModules (snd (resolveAndCollect_string tree file m
        \<lparr>importedModules = imp, missingModules = [], resolverCalls = []\<rparr>))"

text \<open>
  A file has no dependencies: on the contents that are read from it, whatever else a file
  processor that matches it is given, the set that the processor returns is empty.
\<close>

definition no_dependencies :: "dependencyTree \<Rightarrow> path \<Rightarrow> bool" where
  "no_dependencies tree file =
     (\<forall>contents. readFileSync tree file = Inr contents \<longrightarrow>
        (\<forall>p \<in> set (fileProcessors tree). match p file \<longrightarrow>
           (\<forall>m files a b. process p file contents m files = Inr (a, b) \<longrightarrow> a = [])))"

subsection \<open>An example\<close>

text \<open>
  A tree over the root \<open>/r\<close> with the files \<open>a.ts\<close>, whose contents are \<open>./b\<close>, and
  \<open>b.ts\<close>, which is empty; a resolver that knows \<open>./b\<close>, throws an error with a
  message on \<open>./gone\<close>, throws \<open>undefined\<close> on \<open>./undef\<close> and returns no path for
  anything else; and one file processor, for which the contents of a file, when not
  empty, are its one reference.
\<close>

definition example_base :: dependencyTree where
  "example_base =
     \<lparr>rootDirs = [''/r''],
      resolveSync = (\<lambda>dir r. if r = ''./b'' then Returns (Some (dir @ ''/b.ts''))
                              else if r = ''./gone'' then Throws (HasMessage ''not found'')
                              else if r = ''./undef'' then Throws Nullish
                              else Returns None),
      ignoreGlobs = [''**/node_modules/**''],
      transformReference = (\<lambda>r file. One r),
      fileProcessors = [],
      builtinModules = [''fs'', ''path''],
      dirname = (\<lambda>file. ''/r''),
      readFileSync = (\<lambda>file. if file = ''/r/a.ts'' then Inr ''./b'' else Inr ''''),
      fg_sync = (\<lambda>pattern cwd ignore. [cwd @ ''/a.ts'', cwd @ ''/b.ts''])\<rparr>"

definition example_processor :: processor where
  "example_processor =
     \<lparr>match = (\<lambda>file. True), supportedFileTypes = [''ts''],
      process = (\<lambda>file contents missingDeps files.
        if contents = [] then Inr ([], missingDeps)
        else
          (case resolveAndCollect example_base file
                  (transformReference example_base contents file)
                  \<lparr>importedModules = [], missingModules = missingDeps,
                     resolverCalls = []\<rparr> of
             (Some e, st) \<Rightarrow> Inl e
           | (None, st) \<Rightarrow> Inr (importedModules st, missingModules st)))\<rparr>"

definition example_tree :: dependencyTree where
  "example_tree = example_base\<lparr>fileProcessors := [example_processor]\<rparr>"

definition empty_collected :: collected where
  "empty_collected = \<lparr>importedModules = [], missingModules = [], resolverCalls = []\<rparr>"

section \<open>The directive processor\<close>

subsection \<open>Regular expressions\<close>

text \<open>
  The processor builds its patterns from the two patterns of its options. The model has
  the constructs that these patterns use and matches them as the backtracking matcher of
  JavaScript does: a greedy repetition first takes all it can and gives characters back
  one by one, an alternative is tried when all that follows the earlier one has failed.
  A string is the list of its code units, here the units below 256: \<open>.\<close> takes every
  unit but the line terminators (line feed and carriage return), \<open>\s\<close> takes the white
  space (tab, line feed, vertical tab, form feed, carriage return, space, no-break space).
\<close>

datatype cls = Dot | Space | Except char | Ch char

fun cls_ok :: "cls \<Rightarrow> char \<Rightarrow> bool" where
  "cls_ok Dot c = (c \<noteq> CHR 0x0A \<and> c \<noteq> CHR 0x0D)"
| "cls_ok Space c =
     (c \<in> set [CHR 0x09, CHR 0x0A, CHR 0x0B, CHR 0x0C, CHR 0x0D, CHR 0x20, CHR 0xA0])"
| "cls_ok (Except x) c = (c \<noteq> x)"
| "cls_ok (Ch x) c = (c = x)"

text \<open>
  \<open>Lit\<close> is literal text, \<open>LitI\<close> literal text under the flag \<open>i\<close>, \<open>Star\<close> and
  \<open>Plus\<close> the greedy \<open>*\<close> and \<open>+\<close> on one class of characters, \<open>Group\<close> a named
  capturing group, \<open>Eoi\<close> the \<open>$\<close> of a pattern without the flag \<open>m\<close>.
\<close>

datatype re =
    Lit string
  | LitI string
  | Cls cls
  | Star cls
  | Plus cls
  | Seq re re
  | Alt re re
  | Group string re
  | Eoi
  | Eps

definition toLower :: "char \<Rightarrow> char" where
  "toLower c =
     (if (65::nat) \<le> of_char c \<and> of_char c \<le> (90::nat) then char_of (of_char c + (32::nat))
      else c)"

text \<open>
  A captured group: its name, where it starts in the string that is matched, and its
  text. JavaScript gives the text only; the start is kept for the statements.
\<close>

type_synonym groups = "(string \<times> nat \<times> string) list"

text \<open>
  \<open>star p s pos k\<close>: take characters that satisfy \<open>p\<close> from \<open>s\<close>, the longest run
  first, until the rest of the pattern \<open>k\<close> matches what is left.
\<close>

fun star :: "(char \<Rightarrow> bool) \<Rightarrow> string \<Rightarrow> nat \<Rightarrow> (string \<Rightarrow> nat \<Rightarrow> 'r option) \<Rightarrow> 'r option" where
  "star p [] pos k = k [] pos"
| "star p (c # s) pos k =
     (if p c then
        (case star p s (Suc pos) k of
           Some r \<Rightarrow> Some r
         | None \<Rightarrow> k (c # s) pos)
      else k (c # s) pos)"

text \<open>
  \<open>rmatch r s pos groups k\<close>: match \<open>r\<close> at the head of \<open>s\<close>, which starts at
  position \<open>pos\<close>, then the rest of the pattern \<open>k\<close>; the first way that succeeds is
  the result.
\<close>

fun rmatch ::
  "re \<Rightarrow> string \<Rightarrow> nat \<Rightarrow> groups \<Rightarrow> (string \<Rightarrow> nat \<Rightarrow> groups \<Rightarrow> 'r option) \<Rightarrow> 'r option" where
  "rmatch (Lit l) s pos gs k =
     (if take (length l) s = l then k (drop (length l) s) (pos + length l) gs else None)"
| "rmatch (LitI l) s pos gs k =
     (if map toLower (take (length l) s) = map toLower l
      then k (drop (length l) s) (pos + length l) gs else None)"
| "rmatch (Cls c) s pos gs k =
     (case s of [] \<Rightarrow> None | x # xs \<Rightarrow> if cls_ok c x then k xs (Suc pos) gs else None)"
| "rmatch (Star c) s pos gs k = star (cls_ok c) s pos (\<lambda>s' pos'. k s' pos' gs)"
| "rmatch (Plus c) s pos gs k =
     (case s of
        [] \<Rightarrow> None
      | x # xs \<Rightarrow>
          if cls_ok c x then star (cls_ok c) xs (Suc pos) (\<lambda>s' pos'. k s' pos' gs) else None)"
| "rmatch (Seq a b) s pos gs k =
     rmatch a s pos gs (\<lambda>s' pos' gs'. rmatch b s' pos' gs' k)"
| "rmatch (Alt a b) s pos gs k =
     (case rmatch a s pos gs k of
        Some r \<Rightarrow> Some r
      | None \<Rightarrow> rmatch b s pos gs k)"
| "rmatch (Group name a) s pos gs k =
     rmatch a s pos gs (\<lambda>s' pos' gs'. k s' pos' ((name, pos, take (pos' - pos) s) # gs'))"
| "rmatch Eoi s pos gs k = (if s = [] then k s pos gs else None)"
| "rmatch Eps s pos gs k = k s pos gs"

text \<open>
  \<open>exec\<close> of a pattern that starts with \<open>^\<close>: the match is at the start of the string
  or there is none. The result is the matched text \<open>m[0]\<close> and the groups.
\<close>

definition re_exec :: "re \<Rightarrow> string \<Rightarrow> (string \<times> groups) option" where
  "re_exec r s = rmatch r s 0 [] (\<lambda>s' pos gs. Some (take pos s, gs))"

text \<open>\<open>test\<close> of a pattern without \<open>^\<close>: a match at some start.\<close>

fun re_test :: "re \<Rightarrow> string \<Rightarrow> bool" where
  "re_test r [] = (re_exec r [] \<noteq> None)"
| "re_test r (c # s) = (re_exec r (c # s) \<noteq> None \<or> re_test r s)"

text \<open>
  \<open>s.replace(r, '')\<close> for a pattern with the flag \<open>g\<close>: every match is cut out, from
  left to right.
\<close>

fun re_remove_all :: "re \<Rightarrow> string \<Rightarrow> string" where
  "re_remove_all r [] = []"
| "re_remove_all r (c # s) =
     (case re_exec r (c # s) of
        None \<Rightarrow> c # re_remove_all r s
      | Some (m, gs) \<Rightarrow>
          if m = [] then c # re_remove_all r s
          else re_remove_all r (drop (length m - 1) s))"

text \<open>A sequence and an alternation of several patterns.\<close>

fun seqs :: "re list \<Rightarrow> re" where
  "seqs [] = Eps"
| "seqs [r] = r"
| "seqs (r # rs) = Seq r (seqs rs)"

fun alts :: "re list \<Rightarrow> re" where
  "alts [] = Eps"
| "alts [r] = r"
| "alts (r # rs) = Alt r (alts rs)"

subsection \<open>The options and the patterns built from them\<close>

record options =
  reStart :: re
  reContinuation :: re
  fileTypes :: "string list"

text \<open>\<open>TSDirectiveProcessor\<close>: \<open>reStart: /\/\/\//\<close>, \<open>reContinuation: /\/\/\/?/\<close>.\<close>

definition TSDirectiveProcessor :: options where
  "TSDirectiveProcessor =
     \<lparr>reStart = Lit ''///'',
      reContinuation = Seq (Lit ''//'') (Alt (Lit ''/'') Eps),
      fileTypes = [''ts'', ''tsx'']\<rparr>"

definition ELEMENT_NAME :: string where
  "ELEMENT_NAME = ''dependency-tree''"

definition allowedAttributes :: "string list" where
  "allowedAttributes = [''dependsOn'']"

text \<open>
  \<open>escapeRegExp(ELEMENT_NAME)\<close> is the name itself: none of its characters is special.
  \<open>(?:.*START\s*(?<body><dependency-tree\s[^>]*/>).*)\<close>
\<close>

definition reStrElementsBody :: "options \<Rightarrow> re" where
  "reStrElementsBody opts =
     seqs [Star Dot, reStart opts, Star Space,
           Group ''body''
             (seqs [Lit (''<'' @ ELEMENT_NAME), Cls Space, Star (Except (CHR ''>'')), Lit ''/>'']),
           Star Dot]"

text \<open>\<open>(?:.*(?<syntaxError>START\s*<dependency-tree)\s.*)\<close>\<close>

definition reStrSyntaxError :: "options \<Rightarrow> re" where
  "reStrSyntaxError opts =
     seqs [Star Dot,
           Group ''syntaxError'' (seqs [reStart opts, Star Space, Lit (''<'' @ ELEMENT_NAME)]),
           Cls Space, Star Dot]"

text \<open>\<open>(?:.+)\<close>\<close>

definition reStrRest :: re where
  "reStrRest = Plus Dot"

text \<open>
  \<open>^((?:body|syntaxError|rest)(?:\n+|$))\<close>; the outer group, which the source does
  not read, is not recorded.
\<close>

definition reNext :: "options \<Rightarrow> re" where
  "reNext opts =
     Seq (Alt (reStrElementsBody opts) (Alt (reStrSyntaxError opts) reStrRest))
         (Alt (Plus (Ch (CHR 0x0A))) Eoi)"

text \<open>\<open>/\n\s*(CONTINUATION)/g\<close>\<close>

definition reMultilineDirectiveDelimiter :: "options \<Rightarrow> re" where
  "reMultilineDirectiveDelimiter opts =
     seqs [Cls (Ch (CHR 0x0A)), Star Space, reContinuation opts]"

text \<open>
  \<open>/\.(ts|tsx)$/i\<close>, for file types that are plain words as those of
  \<open>TSDirectiveProcessor\<close> are.
\<close>

definition reExt :: "options \<Rightarrow> re" where
  "reExt opts = seqs [LitI ''.'', alts (map LitI (fileTypes opts)), Eoi]"

text \<open>\<open>/(line|column|char):.*(\n+|$)/gi\<close>\<close>

definition reXML2JSReport :: re where
  "reXML2JSReport =
     seqs [alts [LitI ''line'', LitI ''column'', LitI ''char''], LitI '':'', Star Dot,
           Alt (Plus (Ch (CHR 0x0A))) Eoi]"

subsection \<open>Positions\<close>

text \<open>\<open>s.split(c)\<close> for a character \<open>c\<close>: the pieces between its occurrences.\<close>

fun split :: "char \<Rightarrow> string \<Rightarrow> string list" where
  "split c [] = [[]]"
| "split c (x # xs) =
     (if x = c then [] # split c xs
      else (case split c xs of [] \<Rightarrow> [[x]] | p # ps \<Rightarrow> (x # p) # ps))"

text \<open>
  \<open>getNextSymbolPosition\<close>: \<open>m.length\<close> and the length of the piece that \<open>m.pop()\<close>
  returns, or 0 when there is none, plus one.
\<close>

definition getNextSymbolPosition :: "string \<Rightarrow> nat \<times> nat" where
  "getNextSymbolPosition content =
     (let m = split (CHR 0x0A) content
      in (length m, (case m of [] \<Rightarrow> 0 | _ # _ \<Rightarrow> length (last m)) + 1))"

text \<open>\<open>s.indexOf(t)\<close>: the first index at which \<open>t\<close> occurs in \<open>s\<close>, or \<open>-1\<close>.\<close>

fun indexOf :: "string \<Rightarrow> string \<Rightarrow> int" where
  "indexOf [] t = (if t = [] then 0 else - 1)"
| "indexOf (x # xs) t =
     (if take (length t) (x # xs) = t then 0
      else (let i = indexOf xs t in if i < 0 then - 1 else i + 1))"

text \<open>\<open>s.slice(0, e)\<close>: a negative end counts from the end of the string.\<close>

definition slice0 :: "string \<Rightarrow> int \<Rightarrow> string" where
  "slice0 s e = (if e < 0 then take (nat (int (length s) + e)) s else take (nat e) s)"

text \<open>
  \<open>errorPayload(fullMatch, groupMatch)\<close>, called when \<open>lastIndex\<close> is already past
  the match: the line and the column of the error. The content and the file path, which
  the source returns with them, are at hand where the error is made.
\<close>

definition errorPayload :: "string \<Rightarrow> nat \<Rightarrow> string \<Rightarrow> string \<Rightarrow> nat \<times> nat" where
  "errorPayload content lastIndex fullMatch groupMatch =
     getNextSymbolPosition
       (slice0 content (int lastIndex - int (length fullMatch) + indexOf fullMatch groupMatch))"

subsection \<open>Directives\<close>

text \<open>
  What the parser \<open>xml2js\<close>, called with the options of the processor, makes of a
  fragment: it rejects it with an error message, or it returns an object with the root
  element under its tag name. The model keeps the tag and the \<open>attributes\<close> of the
  root, their names already turned to camel case by the parser, in the order of the keys;
  \<open>None\<close> is \<open>undefined\<close>, which is what an element without attributes has. The
  parser is not part of the repository and is a parameter.
\<close>

datatype xmlResult = Rejected string | Parsed string "(string \<times> string) list option"

type_synonym directive = "(string \<times> string) list"

definition quote :: string where
  "quote = [CHR 0x27]"

definition assertDirective :: "(string \<times> string) list option \<Rightarrow> error + directive" where
  "assertDirective obj =
     (case obj of
        None \<Rightarrow> Inl (TypeError ''Unexpected type: undefined'')
      | Some kvs \<Rightarrow>
          (case find (\<lambda>key. key \<notin> set allowedAttributes) (map fst kvs) of
             Some key \<Rightarrow> Inl (TypeError (''Unknown attribute: '' @ quote @ key @ quote))
           | None \<Rightarrow> Inr kvs))"

text \<open>The message of an error.\<close>

fun message :: "error \<Rightarrow> string" where
  "message (Error m) = m"
| "message (TypeError m) = m"
| "message (DirectiveProcessorSyntaxError m f l c) = m"
| "message (DirectiveProcessorParseError m f l c) = m"
| "message (DirectiveProcessorValidationError m f l c) = m"

text \<open>The error thrown when the message of \<open>xml2js\<close> has not the expected form.\<close>

definition formatChanged :: "string \<Rightarrow> error" where
  "formatChanged m =
     Error (''The xml2js output format has been changed (maybe xmk2js npm has been upgraded?)!''
            @ [CHR 0x0A] @ ''Please align this part of the code along.''
            @ [CHR 0x0A] @ ''Current output is: '' @ quote @ m @ quote
            @ '', that doesn't match '' @ quote @ ''/(line|column|char):.*('' @ [CHR 0x5C] @ ''n+|$)/gi''
            @ quote
            @ ''.'' @ [CHR 0x0A, CHR 0x0A]
            @ ''Do you have any questions? Reach out to #fe-infra on slack.'')"

text \<open>
  The body of the loop of \<open>getDirectives\<close>, after \<open>lastIndex\<close> has been moved past
  the match: the error that it throws, or the directive that it adds, if any. A group is
  taken when it is there and not empty. When the parsed object has no element under the
  tag of the directive, the destructuring throws a \<open>TypeError\<close> with a message of the
  engine. An error of the directive processor carries its message, the file name, the line
  and the column; the text that the constructor of \<open>DirectiveProcessorError\<close> renders
  from them and the content is left out.
\<close>

definition group :: "groups \<Rightarrow> string \<Rightarrow> string option" where
  "group gs name =
     (case map_of gs name of
        None \<Rightarrow> None
      | Some (start, text) \<Rightarrow> if text = [] then None else Some text)"

definition nextDirective ::
  "options \<Rightarrow> (string \<Rightarrow> xmlResult) \<Rightarrow> string \<Rightarrow> path \<Rightarrow> nat \<Rightarrow> string \<Rightarrow> groups
     \<Rightarrow> error + directive option" where
  "nextDirective opts xml2js content filePath lastIndex fullMatch gs =
     (case group gs ''body'' of
        Some body \<Rightarrow>
          (let singleLineBody = re_remove_all (reMultilineDirectiveDelimiter opts) body
           in case xml2js singleLineBody of
                Rejected m \<Rightarrow>
                  if \<not> re_test reXML2JSReport m then Inl (formatChanged m)
                  else
                    (let (line, column) = errorPayload content lastIndex fullMatch body
                     in Inl (DirectiveProcessorParseError (re_remove_all reXML2JSReport m)
                               filePath line column))
              | Parsed tag attributes \<Rightarrow>
                  if tag \<noteq> ELEMENT_NAME then
                    Inl (TypeError ''Cannot destructure property attributes of undefined'')
                  else
                    (case assertDirective attributes of
                       Inl e \<Rightarrow>
                         (let (line, column) = errorPayload content lastIndex fullMatch body
                          in Inl (DirectiveProcessorValidationError (message e)
                                    filePath line column))
                     | Inr d \<Rightarrow> Inr (Some d)))
      | None \<Rightarrow>
          (case group gs ''syntaxError'' of
             Some syntaxError \<Rightarrow>
               (let (line, column) = errorPayload content lastIndex fullMatch syntaxError
                in Inl (DirectiveProcessorSyntaxError [] filePath line column))
           | None \<Rightarrow> Inr None))"

subsection \<open>The loop of \<open>getDirectives\<close>\<close>

text \<open>
  The loop ends because every match of \<open>reNext\<close> takes at least one character. The
  least number of characters that a pattern takes:
\<close>

fun minlen :: "re \<Rightarrow> nat" where
  "minlen (Lit l) = length l"
| "minlen (LitI l) = length l"
| "minlen (Cls c) = 1"
| "minlen (Star c) = 0"
| "minlen (Plus c) = 1"
| "minlen (Seq a b) = minlen a + minlen b"
| "minlen (Alt a b) = min (minlen a) (minlen b)"
| "minlen (Group name a) = minlen a"
| "minlen Eoi = 0"
| "minlen Eps = 0"

lemma star_consumes:
  "star p s pos k = Some x \<Longrightarrow>
   \<exists>n. n \<le> length s \<and> k (drop n s) (pos + n) = Some x"
proof (induction s arbitrary: pos)
  case Nil
  then show ?case by simp
next
  case (Cons c s)
  show ?case
  proof (cases "p c \<and> star p s (Suc pos) k \<noteq> None")
    case True
    with Cons.prems have "star p s (Suc pos) k = Some x" by (auto split: option.splits)
    from Cons.IH[OF this] obtain n where "n \<le> length s" "k (drop n s) (Suc pos + n) = Some x"
      by blast
    then have "Suc n \<le> length (c # s) \<and> k (drop (Suc n) (c # s)) (pos + Suc n) = Some x"
      by simp
    then show ?thesis by blast
  next
    case False
    with Cons.prems have "k (c # s) pos = Some x" by (auto split: option.splits if_splits)
    then have "0 \<le> length (c # s) \<and> k (drop 0 (c # s)) (pos + 0) = Some x" by simp
    then show ?thesis by blast
  qed
qed

lemma rmatch_consumes:
  "rmatch r s pos gs k = Some x \<Longrightarrow>
   \<exists>n gs'. minlen r \<le> n \<and> n \<le> length s \<and> k (drop n s) (pos + n) gs' = Some x"
proof (induction r arbitrary: s pos gs k)
  case (Lit l)
  then have "take (length l) s = l" "k (drop (length l) s) (pos + length l) gs = Some x"
    by (auto split: if_splits)
  moreover from this(1) have "length l \<le> length s"
    by (metis length_take min.cobounded1)
  ultimately show ?case by auto
next
  case (LitI l)
  then have "map toLower (take (length l) s) = map toLower l"
    "k (drop (length l) s) (pos + length l) gs = Some x"
    by (auto split: if_splits)
  moreover from this(1) have "length l \<le> length s"
    by (metis length_map length_take min.cobounded1)
  ultimately show ?case by auto
next
  case (Cls c)
  then obtain y ys where "s = y # ys" "k ys (Suc pos) gs = Some x"
    by (auto split: list.splits if_splits)
  then have "minlen (Cls c) \<le> 1 \<and> 1 \<le> length s \<and> k (drop 1 s) (pos + 1) gs = Some x"
    by simp
  then show ?case by blast
next
  case (Star c)
  then have "star (cls_ok c) s pos (\<lambda>s' pos'. k s' pos' gs) = Some x" by simp
  from star_consumes[OF this] show ?case by auto
next
  case (Plus c)
  then obtain y ys where s: "s = y # ys"
    and st: "star (cls_ok c) ys (Suc pos) (\<lambda>s' pos'. k s' pos' gs) = Some x"
    by (auto split: list.splits if_splits)
  from star_consumes[OF st] obtain n where "n \<le> length ys" "k (drop n ys) (Suc pos + n) gs = Some x"
    by blast
  then have "minlen (Plus c) \<le> Suc n \<and> Suc n \<le> length s
               \<and> k (drop (Suc n) s) (pos + Suc n) gs = Some x"
    by (simp add: s)
  then show ?case by blast
next
  case (Seq a b)
  from Seq.prems have "rmatch a s pos gs (\<lambda>s' pos' gs'. rmatch b s' pos' gs' k) = Some x"
    by simp
  from Seq.IH(1)[OF this] obtain n g1 where n: "minlen a \<le> n" "n \<le> length s"
    "rmatch b (drop n s) (pos + n) g1 k = Some x" by blast
  from Seq.IH(2)[OF n(3)] obtain m g2 where m: "minlen b \<le> m" "m \<le> length (drop n s)"
    "k (drop m (drop n s)) (pos + n + m) g2 = Some x" by blast
  have "minlen (Seq a b) \<le> n + m \<and> n + m \<le> length s
          \<and> k (drop (n + m) s) (pos + (n + m)) g2 = Some x"
  proof (intro conjI)
    show "minlen (Seq a b) \<le> n + m" using n(1) m(1) by simp
    show "n + m \<le> length s" using n(2) m(2) by simp
    have e1: "drop m (drop n s) = drop (n + m) s" by (simp add: add.commute)
    have e2: "pos + n + m = pos + (n + m)" by simp
    show "k (drop (n + m) s) (pos + (n + m)) g2 = Some x" using m(3) unfolding e1 e2 .
  qed
  then show ?case by blast
next
  case (Alt a b)
  show ?case
  proof (cases "rmatch a s pos gs k")
    case None
    with Alt.prems have "rmatch b s pos gs k = Some x" by simp
    from Alt.IH(2)[OF this] obtain n gs' where
      "minlen b \<le> n" "n \<le> length s" "k (drop n s) (pos + n) gs' = Some x" by blast
    then have "minlen (Alt a b) \<le> n \<and> n \<le> length s \<and> k (drop n s) (pos + n) gs' = Some x"
      by simp
    then show ?thesis by blast
  next
    case (Some y)
    with Alt.prems have "rmatch a s pos gs k = Some x" by simp
    from Alt.IH(1)[OF this] obtain n gs' where
      "minlen a \<le> n" "n \<le> length s" "k (drop n s) (pos + n) gs' = Some x" by blast
    then have "minlen (Alt a b) \<le> n \<and> n \<le> length s \<and> k (drop n s) (pos + n) gs' = Some x"
      by simp
    then show ?thesis by blast
  qed
next
  case (Group name a)
  from Group.prems have
    "rmatch a s pos gs (\<lambda>s' pos' gs'. k s' pos' ((name, pos, take (pos' - pos) s) # gs')) = Some x"
    by simp
  from Group.IH[OF this] show ?case by auto
next
  case Eoi
  then have "s = []" "k s pos gs = Some x" by (auto split: if_splits)
  then show ?case by auto
next
  case Eps
  then have "k (drop 0 s) (pos + 0) gs = Some x" by simp
  then show ?case by (metis le0 minlen.simps(10))
qed

lemma re_exec_length:
  assumes "re_exec r s = Some (m, gs)"
  shows "minlen r \<le> length m \<and> length m \<le> length s \<and> m = take (length m) s"
proof -
  from assms have "rmatch r s 0 [] (\<lambda>s' pos gs. Some (take pos s, gs)) = Some (m, gs)"
    by (simp add: re_exec_def)
  from rmatch_consumes[OF this] obtain n where "minlen r \<le> n" "n \<le> length s" "m = take n s"
    by auto
  then show ?thesis by simp
qed

lemma minlen_reNext: "1 \<le> minlen (reNext opts)"
  by (simp add: reNext_def reStrElementsBody_def reStrSyntaxError_def reStrRest_def)

lemma reNext_progress:
  assumes "re_exec (reNext opts) (drop lastIndex content) = Some (m, gs)"
  shows "0 < length m \<and> lastIndex + length m \<le> length content"
proof -
  from re_exec_length[OF assms] minlen_reNext[of opts]
  have "1 \<le> length m" "length m \<le> length (drop lastIndex content)" by auto
  then show ?thesis by auto
qed

text \<open>
  The loop: \<open>exec\<close> on the content from \<open>lastIndex\<close> on, until there is no match.
\<close>

function getDirectives_loop ::
  "options \<Rightarrow> (string \<Rightarrow> xmlResult) \<Rightarrow> string \<Rightarrow> path \<Rightarrow> nat \<Rightarrow> directive list
     \<Rightarrow> error + directive list" where
  "getDirectives_loop opts xml2js content filePath lastIndex directives =
     (case re_exec (reNext opts) (drop lastIndex content) of
        None \<Rightarrow> Inr directives
      | Some (fullMatch, gs) \<Rightarrow>
          (case nextDirective opts xml2js content filePath (lastIndex + length fullMatch)
                  fullMatch gs of
             Inl e \<Rightarrow> Inl e
           | Inr None \<Rightarrow>
               getDirectives_loop opts xml2js content filePath (lastIndex + length fullMatch)
                 directives
           | Inr (Some d) \<Rightarrow>
               getDirectives_loop opts xml2js content filePath (lastIndex + length fullMatch)
                 (directives @ [d])))"
  by pat_completeness auto
termination getDirectives_loop
proof (relation "measure (\<lambda>(opts, xml2js, content, filePath, lastIndex, directives).
                            length content - lastIndex)", goal_cases)
  case 1
  show ?case by simp
next
  case (2 opts xml2js content filePath lastIndex directives x2 fullMatch gs)
  then have "re_exec (reNext opts) (drop lastIndex content) = Some (fullMatch, gs)" by simp
  from reNext_progress[OF this] have "0 < length fullMatch"
    "lastIndex + length fullMatch \<le> length content" by auto
  then show ?case by (cases fullMatch) simp_all
next
  case (3 opts xml2js content filePath lastIndex directives x2 fullMatch gs)
  then have "re_exec (reNext opts) (drop lastIndex content) = Some (fullMatch, gs)" by simp
  from reNext_progress[OF this] have "0 < length fullMatch"
    "lastIndex + length fullMatch \<le> length content" by auto
  then show ?case by (cases fullMatch) simp_all
qed

declare getDirectives_loop.simps [simp del]

definition getDirectives ::
  "options \<Rightarrow> (string \<Rightarrow> xmlResult) \<Rightarrow> string \<Rightarrow> path \<Rightarrow> error + directive list" where
  "getDirectives opts xml2js content filePath =
     getDirectives_loop opts xml2js content filePath 0 []"

text \<open>
  \<open>process\<close> of the directive processor: every directive with a \<open>dependsOn\<close> that is
  not empty is resolved and collected; an error that leaves \<open>resolveAndCollect\<close> leaves
  the loop and \<open>process\<close>.
\<close>

definition collectDirective ::
  "dependencyTree \<Rightarrow> path \<Rightarrow> directive \<Rightarrow> collected \<Rightarrow> error option \<times> collected" where
  "collectDirective tree file d st =
     (case map_of d ''dependsOn'' of
        None \<Rightarrow> (None, st)
      | Some dependsOn \<Rightarrow>
          if dependsOn \<noteq> [] then
            resolveAndCollect tree file (transformReference tree dependsOn file) st
          else (None, st))"

fun collectDirectives ::
  "dependencyTree \<Rightarrow> path \<Rightarrow> directive list \<Rightarrow> collected \<Rightarrow> error option \<times> collected" where
  "collectDirectives tree file [] st = (None, st)"
| "collectDirectives tree file (d # rest) st =
     (case collectDirective tree file d st of
        (Some e, st') \<Rightarrow> (Some e, st')
      | (None, st') \<Rightarrow> collectDirectives tree file rest st')"

definition directive_process ::
  "options \<Rightarrow> (string \<Rightarrow> xmlResult) \<Rightarrow> dependencyTree \<Rightarrow> path \<Rightarrow> string \<Rightarrow> fileToDeps
     \<Rightarrow> path list \<Rightarrow> error + (path jsset \<times> fileToDeps)" where
  "directive_process opts xml2js tree file contents missingDeps files =
     (case getDirectives opts xml2js contents file of
        Inl e \<Rightarrow> Inl e
      | Inr directives \<Rightarrow>
          (case collectDirectives tree file directives
                  \<lparr>importedModules = [], missingModules = missingDeps, resolverCalls = []\<rparr> of
             (Some e, st) \<Rightarrow> Inl e
           | (None, st) \<Rightarrow> Inr (importedModules st, missingModules st)))"

definition directive_match :: "options \<Rightarrow> path \<Rightarrow> bool" where
  "directive_match opts file = re_test (reExt opts) file"

subsection \<open>The state of the scan\<close>

text \<open>
  Where the loop of \<open>getDirectives\<close> stands after \<open>n\<close> rounds that threw no error:
  its \<open>lastIndex\<close> and the directives found so far; \<open>None\<close> when the loop has
  ended or thrown before.
\<close>

fun scan ::
  "options \<Rightarrow> (string \<Rightarrow> xmlResult) \<Rightarrow> string \<Rightarrow> path \<Rightarrow> nat \<Rightarrow> (nat \<times> directive list) option" where
  "scan opts xml2js content filePath 0 = Some (0, [])"
| "scan opts xml2js content filePath (Suc n) =
     (case scan opts xml2js content filePath n of
        None \<Rightarrow> None
      | Some (lastIndex, directives) \<Rightarrow>
          (case re_exec (reNext opts) (drop lastIndex content) of
             None \<Rightarrow> None
           | Some (fullMatch, gs) \<Rightarrow>
               (case nextDirective opts xml2js content filePath (lastIndex + length fullMatch)
                       fullMatch gs of
                  Inl e \<Rightarrow> None
                | Inr None \<Rightarrow> Some (lastIndex + length fullMatch, directives)
                | Inr (Some d) \<Rightarrow> Some (lastIndex + length fullMatch, directives @ [d]))))"

subsection \<open>Examples of directives\<close>

text \<open>
  Two directive bodies, each with an attribute other than \<open>depends-on\<close>, and contents of
  files that hold them behind the start token: on the third line after other text; on the
  second line after an empty first line; on a first line that ends with a carriage return
  and a line feed; behind the same text on one line; and two directives on one line.
\<close>

definition example_body :: string where
  \<open>example_body = ''<dependency-tree example="demo" />''\<close>

definition foo_body :: string where
  \<open>foo_body = ''<dependency-tree foo="x" />''\<close>

definition unknown_attribute_content :: string where
  "unknown_attribute_content =
     ''// Copyright'' @ [CHR 0x0A, CHR 0x0A] @ ''foo(); /// '' @ example_body @ [CHR 0x0A]"

definition blank_line_content :: string where
  "blank_line_content = [CHR 0x0A] @ ''/// '' @ foo_body"

definition crlf_content :: string where
  "crlf_content = ''/// '' @ foo_body @ [CHR 0x0D, CHR 0x0A]"

definition repeated_body_content :: string where
  "repeated_body_content = example_body @ '' /// '' @ example_body"

definition two_directives_content :: string where
  \<open>two_directives_content =
     ''/// '' @ foo_body @ '' /// <dependency-tree depends-on="./b" />''\<close>

text \<open>
  The answers of \<open>xml2js\<close> on the fragments of the examples; every other fragment is
  rejected.
\<close>

definition xml2js_example :: "string \<Rightarrow> xmlResult" where
  \<open>xml2js_example fragment =
     (if fragment = example_body then Parsed ''dependency-tree'' (Some [(''example'', ''demo'')])
      else if fragment = foo_body then Parsed ''dependency-tree'' (Some [(''foo'', ''x'')])
      else if fragment = ''<dependency-tree depends-on="./b" />''
      then Parsed ''dependency-tree'' (Some [(''dependsOn'', ''./b'')])
      else Rejected ''Unexpected input'')\<close>

section \<open>Properties of the graph\<close>

subsection \<open>The walk\<close>

lemma walkDfs_loop_Nil: "walkDfs_loop g [] visited yielded = Inr (yielded, visited)"
  by (subst walkDfs_loop.simps) (simp add: stack_isEmpty_def)

lemma walkDfs_loop_Cons:
  "walkDfs_loop g (node # st) visited yielded =
     (if node \<in> set visited then walkDfs_loop g st visited yielded
      else walkDfs_loop g (rev (case map_get g node of None \<Rightarrow> [] | Some outNodes \<Rightarrow> outNodes) @ st)
             (visited @ [node]) (yielded @ [node]))"
proof -
  have am: "stack_addMany st vals = rev vals @ st" for vals and st :: "'a list"
    unfolding stack_addMany_def by (induction vals arbitrary: st) (simp_all add: stack_add_def)
  show ?thesis
    by (subst walkDfs_loop.simps)
       (simp add: stack_isEmpty_def stack_next_Cons set_has_def set_add_def am split: option.split)
qed

lemma set_succs: "set (succs g a) = edges_of g `` {a}"
  by (cases "map_get g a") (auto simp: succs_def edges_of_def)

lemma walkDfs_loop_sound:
  "edges_of g `` set visited \<subseteq> set visited \<union> set toVisit \<Longrightarrow>
   \<exists>ys vis. walkDfs_loop g toVisit visited yielded = Inr (yielded @ ys, vis)
     \<and> set vis = set visited \<union> set ys \<and> distinct ys \<and> set ys \<inter> set visited = {}
     \<and> edges_of g `` set vis \<subseteq> set vis \<and> set toVisit \<subseteq> set vis
     \<and> set vis \<subseteq> set visited \<union> (edges_of g)\<^sup>* `` set toVisit"
proof (induction g toVisit visited yielded rule: walkDfs_loop.induct)
  case (1 g toVisit visited yielded)
  show ?case
  proof (cases toVisit)
    case Nil
    with 1 show ?thesis by (auto simp: walkDfs_loop_Nil)
  next
    case (Cons node st)
    have ne: "\<not> stack_isEmpty toVisit" by (simp add: Cons stack_isEmpty_def)
    have nx: "stack_next toVisit = Inr (node, st)" by (simp add: Cons stack_next_Cons)
    show ?thesis
    proof (cases "node \<in> set visited")
      case True
      have pre: "edges_of g `` set visited \<subseteq> set visited \<union> set st"
        using "1.prems" True by (auto simp: Cons)
      from "1.IH"(1)[OF ne nx refl _ pre] True
      obtain ys vis where r: "walkDfs_loop g st visited yielded = Inr (yielded @ ys, vis)"
        "set vis = set visited \<union> set ys" "distinct ys" "set ys \<inter> set visited = {}"
        "edges_of g `` set vis \<subseteq> set vis" "set st \<subseteq> set vis"
        "set vis \<subseteq> set visited \<union> (edges_of g)\<^sup>* `` set st"
        by (auto simp: set_has_def)
      show ?thesis
        using r True by (auto simp: Cons walkDfs_loop_Cons)
    next
      case False
      let ?R = "edges_of g"
      let ?st = "rev (succs g node) @ st"
      let ?visited = "set_add visited node"
      have nh: "\<not> set_has visited node" using False by (simp add: set_has_def)
      have sv: "set ?visited = insert node (set visited)" by (simp add: set_set_add)
      have pre: "?R `` set ?visited \<subseteq> set ?visited \<union> set ?st"
        using "1.prems" by (auto simp: sv Cons set_succs)
      have "\<exists>ys vis. walkDfs_loop g ?st ?visited (yielded @ [node])
                 = Inr ((yielded @ [node]) @ ys, vis)
          \<and> set vis = set ?visited \<union> set ys \<and> distinct ys \<and> set ys \<inter> set ?visited = {}
          \<and> ?R `` set vis \<subseteq> set vis \<and> set ?st \<subseteq> set vis
          \<and> set vis \<subseteq> set ?visited \<union> ?R\<^sup>* `` set ?st"
      proof (cases "map_get g node")
        case None
        then have e: "succs g node = []" by (simp add: succs_def)
        show ?thesis
          using "1.IH"(2)[OF ne nx refl nh None] pre by (simp add: e)
      next
        case (Some outNodes)
        then have e: "succs g node = outNodes" by (simp add: succs_def)
        have am: "stack_addMany st outNodes = rev outNodes @ st"
          unfolding stack_addMany_def
          by (induction outNodes arbitrary: st) (simp_all add: stack_add_def)
        show ?thesis
          using "1.IH"(3)[OF ne nx refl nh Some] pre by (simp add: e am)
      qed
      then obtain ys vis where r:
        "walkDfs_loop g ?st ?visited (yielded @ [node]) = Inr ((yielded @ [node]) @ ys, vis)"
        "set vis = set ?visited \<union> set ys" "distinct ys" "set ys \<inter> set ?visited = {}"
        "?R `` set vis \<subseteq> set vis" "set ?st \<subseteq> set vis"
        "set vis \<subseteq> set ?visited \<union> ?R\<^sup>* `` set ?st"
        by blast
      have run: "walkDfs_loop g toVisit visited yielded = Inr (yielded @ (node # ys), vis)"
        using r(1) False by (simp add: Cons walkDfs_loop_Cons succs_def set_add_def set_has_def)
      have reach: "?R\<^sup>* `` set ?st \<subseteq> ?R\<^sup>* `` set toVisit"
      proof
        fix x assume "x \<in> ?R\<^sup>* `` set ?st"
        then obtain s where s: "s \<in> set ?st" "(s, x) \<in> ?R\<^sup>*" by blast
        show "x \<in> ?R\<^sup>* `` set toVisit"
        proof (cases "s \<in> set st")
          case True
          with s show ?thesis by (auto simp: Cons)
        next
          case False
          with s have "(node, s) \<in> ?R" by (auto simp: set_succs)
          with s have "(node, x) \<in> ?R\<^sup>*" by (meson converse_rtrancl_into_rtrancl)
          then show ?thesis by (auto simp: Cons)
        qed
      qed
      have "set vis = set visited \<union> set (node # ys)" using r(2) by (simp add: sv)
      moreover have "distinct (node # ys)" using r(3,4) by (auto simp: sv)
      moreover have "set (node # ys) \<inter> set visited = {}" using r(4) False by (auto simp: sv)
      moreover have "set toVisit \<subseteq> set vis" using r(2,6) by (auto simp: sv Cons)
      moreover have "set vis \<subseteq> set visited \<union> ?R\<^sup>* `` set toVisit"
        using r(7) reach by (auto simp: sv Cons)
      ultimately show ?thesis using run r(5) by blast
    qed
  qed
qed


lemma manyWalkDfs_loop_sound:
  "edges_of g `` set visited \<subseteq> set visited \<Longrightarrow>
   \<exists>ys vis. manyWalkDfs_loop g entrypoints visited = Inr (ys, vis)
     \<and> set vis = set visited \<union> set ys \<and> distinct ys \<and> set ys \<inter> set visited = {}
     \<and> edges_of g `` set vis \<subseteq> set vis \<and> set entrypoints \<subseteq> set vis
     \<and> set vis \<subseteq> set visited \<union> (edges_of g)\<^sup>* `` set entrypoints"
proof (induction entrypoints arbitrary: visited)
  case Nil
  then show ?case by simp
next
  case (Cons entrypoint rest)
  let ?R = "edges_of g"
  have "?R `` set visited \<subseteq> set visited \<union> set [entrypoint]"
    using Cons.prems by auto
  from walkDfs_loop_sound[OF this, of "[]"]
  obtain ys v1 where w0: "walkDfs_loop g [entrypoint] visited [] = Inr ([] @ ys, v1)"
    "set v1 = set visited \<union> set ys" "distinct ys" "set ys \<inter> set visited = {}"
    "?R `` set v1 \<subseteq> set v1" "set [entrypoint] \<subseteq> set v1"
    "set v1 \<subseteq> set visited \<union> ?R\<^sup>* `` set [entrypoint]"
    by blast
  then have w: "walkDfs g entrypoint visited = Inr (ys, v1)"
    "set v1 = set visited \<union> set ys" "distinct ys" "set ys \<inter> set visited = {}"
    "?R `` set v1 \<subseteq> set v1" "entrypoint \<in> set v1"
    "set v1 \<subseteq> set visited \<union> ?R\<^sup>* `` {entrypoint}"
    by (simp_all add: walkDfs_def stack_add_def)
  from Cons.IH[OF w(5)]
  obtain zs v2 where m: "manyWalkDfs_loop g rest v1 = Inr (zs, v2)"
    "set v2 = set v1 \<union> set zs" "distinct zs" "set zs \<inter> set v1 = {}"
    "?R `` set v2 \<subseteq> set v2" "set rest \<subseteq> set v2"
    "set v2 \<subseteq> set v1 \<union> ?R\<^sup>* `` set rest"
    by blast
  have run: "manyWalkDfs_loop g (entrypoint # rest) visited = Inr (ys @ zs, v2)"
    by (simp add: w(1) m(1))
  have "set v2 = set visited \<union> set (ys @ zs)" using w(2) m(2) by auto
  moreover have "distinct (ys @ zs)" using w(2,3) m(3,4) by auto
  moreover have "set (ys @ zs) \<inter> set visited = {}" using w(2,4) m(4) by auto
  moreover have "set (entrypoint # rest) \<subseteq> set v2" using w(6) m(2,6) by auto
  moreover have "set v2 \<subseteq> set visited \<union> ?R\<^sup>* `` set (entrypoint # rest)"
    using w(7) m(7) by auto
  ultimately show ?case using run m(5) by blast
qed

lemma closed_reachable:
  assumes "R `` V \<subseteq> V" and "S \<subseteq> V"
  shows "R\<^sup>* `` S \<subseteq> V"
proof
  fix x assume "x \<in> R\<^sup>* `` S"
  then obtain s where "s \<in> S" and "(s, x) \<in> R\<^sup>*" by blast
  from this(2) this(1) show "x \<in> V"
    using assms by (induction rule: rtrancl_induct) auto
qed

lemma manyWalkDfs_loop_reachable:
  "\<exists>ys vis. manyWalkDfs_loop g entrypoints [] = Inr (ys, vis) \<and> distinct ys
     \<and> set ys = (edges_of g)\<^sup>* `` set entrypoints"
proof -
  from manyWalkDfs_loop_sound[of g "[]" entrypoints]
  obtain ys vis where m: "manyWalkDfs_loop g entrypoints [] = Inr (ys, vis)"
    "set vis = set ys" "distinct ys" "edges_of g `` set vis \<subseteq> set vis"
    "set entrypoints \<subseteq> set vis" "set vis \<subseteq> (edges_of g)\<^sup>* `` set entrypoints"
    by auto
  have "(edges_of g)\<^sup>* `` set entrypoints \<subseteq> set vis"
    using m(4,5) by (rule closed_reachable)
  with m show ?thesis by auto
qed

lemma set_fold_set_add: "set (fold (\<lambda>x s. set_add s x) xs s) = set s \<union> set xs"
  by (induction xs arbitrary: s) (auto simp: set_set_add)

lemma set_fold_set_delete: "set (fold (\<lambda>x s. set_delete s x) xs s) = set s - set xs"
  by (induction xs arbitrary: s) (auto simp: set_delete_def)

lemma findRelatedFiles_reachable:
  "\<exists>r. findRelatedFiles g files = Inr r
     \<and> set r = (edges_of g)\<^sup>* `` set files - set files"
proof -
  from manyWalkDfs_loop_reachable[of g files]
  obtain ys vis where "manyWalkDfs_loop g files [] = Inr (ys, vis)"
    "set ys = (edges_of g)\<^sup>* `` set files"
    by blast
  then show ?thesis
    by (simp add: findRelatedFiles_def manyWalkDfs_def set_fold_set_delete set_fold_set_add)
qed

lemma no_edge_no_path:
  assumes "R\<^sup>+ `` S = {}"
  shows "R\<^sup>* `` S = S"
proof
  show "R\<^sup>* `` S \<subseteq> S"
  proof
    fix x assume "x \<in> R\<^sup>* `` S"
    then obtain s where s: "s \<in> S" "(s, x) \<in> R\<^sup>*" by blast
    from s(2) have "s = x \<or> (s, x) \<in> R\<^sup>+" by (auto dest: rtranclD)
    with s(1) assms show "x \<in> S" by blast
  qed
  show "S \<subseteq> R\<^sup>* `` S" by blast
qed

subsection \<open>The transpose\<close>

lemma map_has_get: "map_has m k \<longleftrightarrow> map_get m k \<noteq> None"
  by (simp add: map_has_def map_get_def map_of_eq_None_iff)

lemma keys_map_set:
  "map fst (map_set m k v) = (if k \<in> fst ` set m then map fst m else map fst m @ [k])"
  by (induction m) auto

lemma wf_map_set: "wf_map m \<Longrightarrow> wf_map (map_set m k v)"
  by (auto simp: wf_map_def keys_map_set)

lemma set_map_set:
  "wf_map m \<Longrightarrow> set (map_set m k v) = insert (k, v) {p \<in> set m. fst p \<noteq> k}"
  unfolding wf_map_def by (induction m) (auto simp: rev_image_eqI)

lemma wf_map_get: "wf_map m \<Longrightarrow> map_get m k = Some v \<longleftrightarrow> (k, v) \<in> set m"
  by (simp add: wf_map_def map_get_def)

lemma wf_edges_of: "wf_map g \<Longrightarrow> edges_of g = entry_edges g"
  by (auto simp: edges_of_def entry_edges_def wf_map_get)

lemma entry_edges_map_set:
  "wf_map m \<Longrightarrow>
   entry_edges (map_set m k v) = {(a, b) \<in> entry_edges m. a \<noteq> k} \<union> {k} \<times> set v"
  by (auto simp: entry_edges_def set_map_set)

lemma entry_edges_add_new:
  assumes "wf_map m" and "\<not> map_has m k"
  shows "entry_edges (map_set m k [node]) = insert (k, node) (entry_edges m)"
proof -
  have "a \<noteq> k" if "(a, b) \<in> entry_edges m" for a b
    using that assms(2) by (force simp: entry_edges_def map_has_def)
  then show ?thesis using assms(1) by (auto simp: entry_edges_map_set)
qed

lemma entry_edges_add_old:
  assumes "wf_map m" and "map_get m k = Some outNodes"
  shows "entry_edges (map_set m k (set_add outNodes node)) = insert (k, node) (entry_edges m)"
proof -
  have "b \<in> set outNodes \<longleftrightarrow> (k, b) \<in> entry_edges m" for b
    using assms by (auto simp: entry_edges_def wf_map_get[symmetric])
  then show ?thesis using assms(1) by (auto simp: entry_edges_map_set set_set_add)
qed

lemma transpose_endpoints_sound:
  "wf_map inverted \<Longrightarrow>
   \<exists>t. transpose_endpoints node endpoints inverted = Inr t \<and> wf_map t
     \<and> entry_edges t = entry_edges inverted \<union> (\<lambda>e. (e, node)) ` set endpoints"
proof (induction endpoints arbitrary: inverted)
  case Nil
  then show ?case by simp
next
  case (Cons endpointNode rest)
  show ?case
  proof (cases "map_get inverted endpointNode")
    case None
    then have nh: "\<not> map_has inverted endpointNode" by (simp add: map_has_get)
    let ?m = "map_set inverted endpointNode [node]"
    from Cons.IH[OF wf_map_set[OF Cons.prems], of endpointNode "[node]"]
    obtain t where t: "transpose_endpoints node rest ?m = Inr t" "wf_map t"
      "entry_edges t = entry_edges ?m \<union> (\<lambda>e. (e, node)) ` set rest" by blast
    show ?thesis
      using t nh by (auto simp: entry_edges_add_new[OF Cons.prems nh])
  next
    case (Some outNodes)
    then have h: "map_has inverted endpointNode" by (simp add: map_has_get)
    let ?m = "map_set inverted endpointNode (set_add outNodes node)"
    from Cons.IH[OF wf_map_set[OF Cons.prems], of endpointNode "set_add outNodes node"]
    obtain t where t: "transpose_endpoints node rest ?m = Inr t" "wf_map t"
      "entry_edges t = entry_edges ?m \<union> (\<lambda>e. (e, node)) ` set rest" by blast
    show ?thesis
      using t h Some
      by (auto simp: entry_edges_add_old[OF Cons.prems Some] assertNonNull_def)
  qed
qed

lemma entry_edges_Cons:
  "entry_edges ((node, endpoints) # rest) = Pair node ` set endpoints \<union> entry_edges rest"
  by (auto simp: entry_edges_def)

lemma transpose_entries_sound:
  "wf_map inverted \<Longrightarrow>
   \<exists>t. transpose_entries g inverted = Inr t \<and> wf_map t
     \<and> entry_edges t = entry_edges inverted \<union> (entry_edges g)\<inverse>"
proof (induction g arbitrary: inverted)
  case Nil
  then show ?case by (simp add: entry_edges_def)
next
  case (Cons entry rest)
  obtain node endpoints where e: "entry = (node, endpoints)" by (cases entry)
  from transpose_endpoints_sound[OF Cons.prems, of node endpoints]
  obtain m where m: "transpose_endpoints node endpoints inverted = Inr m" "wf_map m"
    "entry_edges m = entry_edges inverted \<union> (\<lambda>e. (e, node)) ` set endpoints" by blast
  from Cons.IH[OF m(2)]
  obtain t where t: "transpose_entries rest m = Inr t" "wf_map t"
    "entry_edges t = entry_edges m \<union> (entry_edges rest)\<inverse>" by blast
  have "entry_edges t = entry_edges inverted \<union> (entry_edges (entry # rest))\<inverse>"
    unfolding t(3) m(3) e entry_edges_Cons by auto
  with t m show ?case by (simp add: e)
qed

lemma transpose_graph_sound:
  "\<exists>t. transpose_graph g = Inr t \<and> wf_map t \<and> entry_edges t = (entry_edges g)\<inverse>"
proof -
  have "wf_map ([] :: 'a graph)" by (simp add: wf_map_def)
  from transpose_entries_sound[OF this, of g] show ?thesis
    by (simp add: transpose_graph_def entry_edges_def)
qed

section \<open>The claims on the graph and the queries\<close>

text \<open>
  C3: for every graph and every list of entrypoints, \<open>manyWalkDfs\<close> ends without an
  error, yields no node twice, and the nodes it yields are exactly the nodes that can be
  reached from the entrypoints along the edges, the entrypoints among them.
\<close>

theorem manyWalkDfs_yields_reachable_once:
  "\<exists>ys. manyWalkDfs g entrypoints = Inr ys \<and> distinct ys
     \<and> set ys = (edges_of g)\<^sup>* `` set entrypoints"
proof -
  from manyWalkDfs_loop_reachable[of g entrypoints]
  obtain ys vis where "manyWalkDfs_loop g entrypoints [] = Inr (ys, vis)" "distinct ys"
    "set ys = (edges_of g)\<^sup>* `` set entrypoints"
    by blast
  then show ?thesis by (simp add: manyWalkDfs_def)
qed

text \<open>
  C2: for every edge map and all entrypoints \<open>S\<close>, \<open>getDependencies\<close> returns a set
  that holds no element of \<open>S\<close>, and the empty set when no path of length at least one
  starts at an element of \<open>S\<close>.
\<close>

theorem getDependencies_excludes_entrypoints:
  "\<exists>r. getDependencies g S = Inr r \<and> set r \<inter> set S = {}
     \<and> ((edges_of g)\<^sup>+ `` set S = {} \<longrightarrow> r = [])"
proof -
  from findRelatedFiles_reachable[of g S]
  obtain r where r: "findRelatedFiles g S = Inr r"
    "set r = (edges_of g)\<^sup>* `` set S - set S" by blast
  have "r = []" if "(edges_of g)\<^sup>+ `` set S = {}"
    using r(2) no_edge_no_path[OF that] by simp
  with r show ?thesis by (auto simp: getDependencies_def)
qed

theorem getDependencies_excludes_entrypoints_witness:
  "getDependencies [(''a.ts'', [''b.ts'']), (''b.ts'', [])] [''b.ts''] = Inr []"
proof -
  let ?g = "[(''a.ts'', [''b.ts'']), (''b.ts'', [])] :: fileToDeps"
  have "edges_of ?g `` {''b.ts''} = {}"
    by (auto simp: edges_of_def map_get_def)
  then have "(edges_of ?g)\<^sup>+ `` set [''b.ts''] = {}"
    by (auto dest: tranclD)
  with getDependencies_excludes_entrypoints[of ?g "[''b.ts'']"] show ?thesis
    by auto
qed

text \<open>
  C4: for every graph, a map with pairwise different keys, transposing twice ends without
  an error and gives a graph with the same edge pairs, and so the same reachability.
\<close>

theorem transpose_twice:
  "wf_map g \<Longrightarrow>
   \<exists>t u. transpose_graph g = Inr t \<and> transpose_graph t = Inr u
     \<and> edges_of u = edges_of g \<and> (edges_of u)\<^sup>* = (edges_of g)\<^sup>*"
proof -
  assume wf: "wf_map g"
  from transpose_graph_sound[of g]
  obtain t where t: "transpose_graph g = Inr t" "entry_edges t = (entry_edges g)\<inverse>" by blast
  from transpose_graph_sound[of t]
  obtain u where u: "transpose_graph t = Inr u" "wf_map u" "entry_edges u = (entry_edges t)\<inverse>"
    by blast
  have "edges_of u = edges_of g"
    using t(2) u(2,3) wf by (simp add: wf_edges_of)
  with t(1) u(1) show ?thesis by simp
qed

theorem transpose_twice_witness:
  "\<exists>t u. transpose_graph [(''a'', [''b'', ''d'']), (''b'', [''c''])] = Inr t
     \<and> transpose_graph t = Inr u
     \<and> edges_of u = edges_of [(''a'', [''b'', ''d'']), (''b'', [''c''])]"
proof -
  have "wf_map [(''a'', [''b'', ''d'']), (''b'', [''c''])]"
    by (simp add: wf_map_def)
  from transpose_twice[OF this] show ?thesis by blast
qed

text \<open>
  C1: for every edge map \<open>g\<close> and all entrypoints, \<open>getReferences\<close> on \<open>g\<close> returns the
  same set of paths as \<open>getDependencies\<close> on any edge map \<open>t\<close> whose edges are the
  edges of \<open>g\<close> reversed.
\<close>

theorem getReferences_is_getDependencies_of_transpose:
  "wf_map g \<Longrightarrow> edges_of t = (edges_of g)\<inverse> \<Longrightarrow>
   \<exists>r r'. getReferences g S = Inr r \<and> getDependencies t S = Inr r' \<and> set r = set r'"
proof -
  assume wf: "wf_map g" and rev: "edges_of t = (edges_of g)\<inverse>"
  from transpose_graph_sound[of g]
  obtain tg where tg: "transpose_graph g = Inr tg" "wf_map tg"
    "entry_edges tg = (entry_edges g)\<inverse>" by blast
  have same: "edges_of tg = edges_of t"
    using tg(2,3) wf rev by (simp add: wf_edges_of)
  from findRelatedFiles_reachable[of tg S]
  obtain r where r: "findRelatedFiles tg S = Inr r"
    "set r = (edges_of tg)\<^sup>* `` set S - set S" by blast
  from findRelatedFiles_reachable[of t S]
  obtain r' where r': "findRelatedFiles t S = Inr r'"
    "set r' = (edges_of t)\<^sup>* `` set S - set S" by blast
  show ?thesis
    using tg(1) r r' same by (simp add: getReferences_def getDependencies_def)
qed

theorem getReferences_is_getDependencies_of_transpose_witness:
  "\<exists>r r'. getReferences [(''a'', [''b'', ''d'']), (''b'', [''c''])] [''c''] = Inr r
     \<and> getDependencies [(''b'', [''a'']), (''d'', [''a'']), (''c'', [''b''])] [''c''] = Inr r'
     \<and> set r = set r'"
proof -
  let ?g = "[(''a'', [''b'', ''d'']), (''b'', [''c''])] :: fileToDeps"
  let ?t = "[(''b'', [''a'']), (''d'', [''a'']), (''c'', [''b''])] :: fileToDeps"
  have wf: "wf_map ?g" by (simp add: wf_map_def)
  have rev: "edges_of ?t = (edges_of ?g)\<inverse>"
    by (auto simp: edges_of_def map_get_def split: if_splits)
  from getReferences_is_getDependencies_of_transpose[OF wf rev] show ?thesis .
qed

section \<open>Properties of the dependency tree\<close>

lemma map_get_map_set: "map_get (map_set m k v) k' = (if k' = k then Some v else map_get m k')"
  unfolding map_get_def by (induction m) auto

lemma missing_of_recordMissing:
  "missing_of (missingModules (recordMissing file m st)) f =
     missing_of (missingModules st) f \<union> (if f = file \<and> m \<noteq> [] then {m} else {})"
  by (auto simp: recordMissing_def missing_of_def map_get_map_set set_set_add Let_def
           split: option.splits)

lemma recordMissing_other [simp]:
  "importedModules (recordMissing file m st) = importedModules st"
  "resolverCalls (recordMissing file m st) = resolverCalls st"
  by (simp_all add: recordMissing_def Let_def)

lemma string_unresolved:
  assumes "is_missing tree file m"
  shows "resolveAndCollect_string tree file m st =
           (None, recordMissing file m
                    (st\<lparr>resolverCalls := resolverCalls st @ [(dirname tree file, m)]\<rparr>))"
  using assms
  by (auto simp: is_missing_def resolver_fails_def resolveAndCollect_string_def Let_def
           split: resolveResult.splits option.splits thrown.splits)

lemma string_outcome:
  "fst (resolveAndCollect_string tree file m st) =
     (if aborts tree file m then Some (TypeError cannotReadMessage) else None)"
  by (auto simp: aborts_def resolveAndCollect_string_def Let_def
           split: resolveResult.splits option.splits thrown.splits)

lemma string_missing_of:
  "missing_of (missingModules (snd (resolveAndCollect_string tree file m st))) f =
     missing_of (missingModules st) f \<union> (if f = file \<and> is_missing tree file m then {m} else {})"
  by (auto simp: is_missing_def resolver_fails_def resolveAndCollect_string_def Let_def
         missing_of_recordMissing
           split: resolveResult.splits option.splits thrown.splits)

lemma string_imported:
  "importedModules (snd (resolveAndCollect_string tree file m st)) =
     imported_step tree file m (importedModules st)"
  by (simp add: imported_step_def resolveAndCollect_string_def Let_def
           split: resolveResult.splits option.splits thrown.splits)

lemma imported_step_missing:
  "is_missing tree file m \<Longrightarrow> imported_step tree file m imp = imp"
  by (simp add: imported_step_def string_unresolved)

lemma no_throw_string:
  "resolveAndCollect_string (tree\<lparr>resolveSync := no_throw (resolveSync tree)\<rparr>) file m st =
     resolveAndCollect_string tree file m st"
  by (simp add: resolveAndCollect_string_def no_throw_def Let_def
           split: resolveResult.splits option.splits thrown.splits)

lemma no_throw_array:
  "resolveAndCollect_array (tree\<lparr>resolveSync := no_throw (resolveSync tree)\<rparr>) file ms st =
     resolveAndCollect_array tree file ms st"
  by (induction ms arbitrary: st)
     (auto simp: no_throw_string split: prod.splits option.splits)

lemma string_builtin:
  "set_has (builtinModules tree) m \<Longrightarrow> resolveAndCollect_string tree file m st = (None, st)"
  by (simp add: resolveAndCollect_string_def)

lemma array_append:
  "resolveAndCollect_array tree file (xs @ ys) st =
     (case resolveAndCollect_array tree file xs st of
        (Some e, st') \<Rightarrow> (Some e, st')
      | (None, st') \<Rightarrow> resolveAndCollect_array tree file ys st')"
  by (induction xs arbitrary: st) (auto split: prod.splits option.splits)

lemma array_builtin:
  assumes "set_has (builtinModules tree) b"
  shows "resolveAndCollect_array tree file (xs @ b # ys) st =
           resolveAndCollect_array tree file (xs @ ys) st"
  using assms by (auto simp: array_append string_builtin split: prod.splits option.splits)

text \<open>When no element is left by an error, the loop runs over all of them.\<close>

lemma array_no_abort:
  "\<forall>m \<in> set ms. \<not> aborts tree file m \<Longrightarrow>
   resolveAndCollect_array tree file ms st =
     (None, fold (\<lambda>m s. snd (resolveAndCollect_string tree file m s)) ms st)"
proof (induction ms arbitrary: st)
  case Nil
  then show ?case by simp
next
  case (Cons m ms)
  from Cons.prems have "fst (resolveAndCollect_string tree file m st) = None"
    by (simp add: string_outcome)
  then obtain st1 where r: "resolveAndCollect_string tree file m st = (None, st1)"
    by (cases "resolveAndCollect_string tree file m st") auto
  from Cons.prems have "\<forall>m \<in> set ms. \<not> aborts tree file m" by simp
  from Cons.IH[OF this, of st1] r show ?case by simp
qed

lemma fold_imported:
  "importedModules (fold (\<lambda>m s. snd (resolveAndCollect_string tree file m s)) ms st) =
     fold (imported_step tree file) ms (importedModules st)"
  by (induction ms arbitrary: st) (simp_all add: string_imported)

lemma fold_missing_of:
  "missing_of (missingModules
      (fold (\<lambda>m s. snd (resolveAndCollect_string tree file m s)) ms st)) f =
     missing_of (missingModules st) f
       \<union> (if f = file then {m \<in> set ms. is_missing tree file m} else {})"
  by (induction ms arbitrary: st) (auto simp: string_missing_of)

lemma string_calls:
  "\<exists>new. resolverCalls (snd (resolveAndCollect_string tree file m st)) = resolverCalls st @ new
     \<and> (\<forall>c \<in> set new. \<not> set_has (builtinModules tree) (snd c))"
  by (auto simp: resolveAndCollect_string_def Let_def
           split: resolveResult.splits option.splits thrown.splits)

lemma array_calls:
  "\<exists>new. resolverCalls (snd (resolveAndCollect_array tree file ms st)) = resolverCalls st @ new
     \<and> (\<forall>c \<in> set new. \<not> set_has (builtinModules tree) (snd c))"
proof (induction ms arbitrary: st)
  case Nil
  then show ?case by simp
next
  case (Cons m ms)
  obtain e st1 where r: "resolveAndCollect_string tree file m st = (e, st1)"
    by (cases "resolveAndCollect_string tree file m st")
  from string_calls[of tree "file" m st] r
  obtain n1 where n1: "resolverCalls st1 = resolverCalls st @ n1"
    "\<forall>c \<in> set n1. \<not> set_has (builtinModules tree) (snd c)" by auto
  show ?case
  proof (cases e)
    case (Some err)
    with r n1 show ?thesis by auto
  next
    case None
    from Cons.IH[of st1]
    obtain n2 where n2: "resolverCalls (snd (resolveAndCollect_array tree file ms st1))
                           = resolverCalls st1 @ n2"
      "\<forall>c \<in> set n2. \<not> set_has (builtinModules tree) (snd c)" by blast
    have "resolverCalls (snd (resolveAndCollect_array tree file (m # ms) st))
            = resolverCalls st @ (n1 @ n2)"
      using r None n1(1) n2(1) by simp
    moreover have "\<forall>c \<in> set (n1 @ n2). \<not> set_has (builtinModules tree) (snd c)"
      using n1(2) n2(2) by auto
    ultimately show ?thesis by blast
  qed
qed

lemma reference_calls:
  "\<exists>new. resolverCalls (snd (resolveAndCollect tree file r st)) = resolverCalls st @ new
     \<and> (\<forall>c \<in> set new. \<not> set_has (builtinModules tree) (snd c))"
  by (cases r) (simp_all add: string_calls array_calls)

lemma array_missing_of:
  "missing_of (missingModules st) f
     \<subseteq> missing_of (missingModules (snd (resolveAndCollect_array tree file ms st))) f
   \<and> missing_of (missingModules (snd (resolveAndCollect_array tree file ms st))) f
     \<subseteq> missing_of (missingModules st) f \<union> {m. is_missing tree file m}"
proof (induction ms arbitrary: st)
  case Nil
  then show ?case by simp
next
  case (Cons m ms)
  obtain e st1 where r: "resolveAndCollect_string tree file m st = (e, st1)"
    by (cases "resolveAndCollect_string tree file m st")
  from string_missing_of[of tree "file" m st f] r
  have s1: "missing_of (missingModules st1) f =
              missing_of (missingModules st) f
                \<union> (if f = file \<and> is_missing tree file m then {m} else {})" by simp
  show ?case
  proof (cases e)
    case (Some err)
    with r s1 show ?thesis by (auto split: if_splits)
  next
    case None
    with r have "resolveAndCollect_array tree file (m # ms) st
                   = resolveAndCollect_array tree file ms st1" by simp
    with Cons.IH[of st1] s1 show ?thesis by (auto split: if_splits)
  qed
qed

lemma reference_missing_of:
  "missing_of (missingModules (snd (resolveAndCollect tree file r st))) f
     \<subseteq> missing_of (missingModules st) f \<union> {m. is_missing tree file m}"
proof (cases r)
  case (One m)
  then show ?thesis by (auto simp: string_missing_of split: if_splits)
next
  case (Many ms)
  with array_missing_of[of st f tree "file" ms] show ?thesis by simp
qed

lemma reference_missing_mono:
  "missing_of (missingModules st) f
     \<subseteq> missing_of (missingModules (snd (resolveAndCollect tree file r st))) f"
proof (cases r)
  case (One m)
  then show ?thesis by (auto simp: string_missing_of split: if_splits)
next
  case (Many ms)
  with array_missing_of[of st f tree "file" ms] show ?thesis by simp
qed

text \<open>
  What holds of a reference on which the resolver fails with a value whose message can be
  read, or with no path: the call returns, the string is in the missing map under the key
  of the file, the imported set is as it was; among siblings of which none is left by an
  error it changes nothing but that entry; and a resolver that returns no path where the
  given one throws such a value gives the same result.
\<close>

lemma unresolved_reference_is_recorded:
  assumes "\<not> set_has (builtinModules tree) referencedModule"
    and "referencedModule \<noteq> []"
    and "resolver_fails tree file referencedModule"
    and "\<forall>m \<in> set (xs @ ys). \<not> aborts tree file m"
  shows "resolveAndCollect tree file (One referencedModule) st =
           (None, recordMissing file referencedModule
                    (st\<lparr>resolverCalls :=
                          resolverCalls st @ [(dirname tree file, referencedModule)]\<rparr>))
       \<and> referencedModule
           \<in> missing_of
               (missingModules (snd (resolveAndCollect tree file (One referencedModule) st))) file
       \<and> fst (resolveAndCollect tree file (Many (xs @ referencedModule # ys)) st) = None
       \<and> importedModules
            (snd (resolveAndCollect tree file (Many (xs @ referencedModule # ys)) st))
           = importedModules (snd (resolveAndCollect tree file (Many (xs @ ys)) st))
       \<and> missing_of
             (missingModules
                (snd (resolveAndCollect tree file (Many (xs @ referencedModule # ys)) st))) f
           = missing_of (missingModules (snd (resolveAndCollect tree file (Many (xs @ ys)) st))) f
               \<union> (if f = file then {referencedModule} else {})
       \<and> resolveAndCollect (tree\<lparr>resolveSync := no_throw (resolveSync tree)\<rparr>) file r st
           = resolveAndCollect tree file r st"
proof -
  have mis: "is_missing tree file referencedModule"
    using assms(1-3) by (simp add: is_missing_def)
  have na: "\<not> aborts tree file referencedModule"
    using assms(3) by (auto simp: aborts_def resolver_fails_def)
  have all: "\<forall>m \<in> set (xs @ referencedModule # ys). \<not> aborts tree file m"
    using assms(4) na by auto
  have c1: "resolveAndCollect tree file (One referencedModule) st =
           (None, recordMissing file referencedModule
                    (st\<lparr>resolverCalls :=
                          resolverCalls st @ [(dirname tree file, referencedModule)]\<rparr>))"
    by (simp add: string_unresolved[OF mis])
  have c2: "referencedModule
           \<in> missing_of
               (missingModules (snd (resolveAndCollect tree file (One referencedModule) st))) file"
    using mis by (simp add: string_missing_of)
  have c3: "fst (resolveAndCollect tree file (Many (xs @ referencedModule # ys)) st) = None"
    by (simp add: array_no_abort[OF all])
  have c4: "importedModules
            (snd (resolveAndCollect tree file (Many (xs @ referencedModule # ys)) st))
           = importedModules (snd (resolveAndCollect tree file (Many (xs @ ys)) st))"
    by (simp add: array_no_abort[OF all] array_no_abort[OF assms(4)] fold_imported
          string_imported imported_step_missing[OF mis])
  have c5: "missing_of
             (missingModules
                (snd (resolveAndCollect tree file (Many (xs @ referencedModule # ys)) st))) f
           = missing_of (missingModules (snd (resolveAndCollect tree file (Many (xs @ ys)) st))) f
               \<union> (if f = file then {referencedModule} else {})"
    using mis
    by (auto simp: array_no_abort[OF all] array_no_abort[OF assms(4)] fold_missing_of
          string_missing_of)
  have c6: "resolveAndCollect (tree\<lparr>resolveSync := no_throw (resolveSync tree)\<rparr>) file r st
           = resolveAndCollect tree file r st"
    by (cases r) (simp_all add: no_throw_string no_throw_array)
  from c1 c2 c3 c4 c5 c6 show ?thesis by blast
qed

lemma getImportedFiles_loop_empty:
  "getImportedFiles_loop ps file contents files allImported matched m
     = Inr (allImported', matched', m') \<Longrightarrow>
   \<forall>p \<in> set ps. match p file \<longrightarrow>
     (\<forall>m fs a b. process p file contents m fs = Inr (a, b) \<longrightarrow> a = []) \<Longrightarrow>
   allImported' = allImported"
proof (induction ps arbitrary: allImported matched m)
  case Nil
  then show ?case by simp
next
  case (Cons p ps)
  have tl: "\<forall>p \<in> set ps. match p file \<longrightarrow>
     (\<forall>m fs a b. process p file contents m fs = Inr (a, b) \<longrightarrow> a = [])"
    using Cons.prems(2) by simp
  show ?case
  proof (cases "match p file")
    case False
    with Cons.prems(1) have
      "getImportedFiles_loop ps file contents files allImported matched m
         = Inr (allImported', matched', m')" by simp
    from Cons.IH[OF this tl] show ?thesis .
  next
    case True
    with Cons.prems(1) obtain a b where ab: "process p file contents m files = Inr (a, b)"
      and rest: "getImportedFiles_loop ps file contents files
                   (fold (\<lambda>imported s. set_add s imported) a allImported) True b
                 = Inr (allImported', matched', m')"
      by (auto split: sum.splits)
    from Cons.prems(2) True have
      "\<forall>m fs a b. process p file contents m fs = Inr (a, b) \<longrightarrow> a = []" by simp
    with ab have "a = []" by blast
    with Cons.IH[OF rest tl] show ?thesis by simp
  qed
qed

lemma getImportedFiles_empty:
  assumes "getImportedFiles tree file m files = Inr (imported, m')"
    and "no_dependencies tree file"
  shows "imported = []"
proof -
  from assms(1) obtain contents matched where
    r: "readFileSync tree file = Inr contents"
    and l: "getImportedFiles_loop (fileProcessors tree) file contents files [] False m
       = Inr (imported, matched, m')"
    by (auto simp: getImportedFiles_def split: sum.splits if_splits)
  from assms(2) r have "\<forall>p \<in> set (fileProcessors tree). match p file \<longrightarrow>
     (\<forall>m fs a b. process p file contents m fs = Inr (a, b) \<longrightarrow> a = [])"
    unfolding no_dependencies_def by blast
  from getImportedFiles_loop_empty[OF l this] show ?thesis .
qed

lemma keys_map_set_set: "fst ` set (map_set m k v) = insert k (fst ` set m)"
  by (induction m) auto

lemma gather_loop_keys:
  assumes "gather_loop tree files fs fileToDeps m = Inr r"
  shows "fst ` set (resolved r) = fst ` set fileToDeps \<union> set fs
       \<and> (\<forall>file. no_dependencies tree file \<longrightarrow>
             map_get (resolved r) file
               = (if file \<in> set fs then Some [] else map_get fileToDeps file))"
  using assms
proof (induction fs arbitrary: fileToDeps m)
  case Nil
  then show ?case by auto
next
  case (Cons file0 rest)
  from Cons.prems obtain imported m' where
    g: "getImportedFiles tree file0 m files = Inr (imported, m')"
    and l: "gather_loop tree files rest (map_set fileToDeps file0 imported) m' = Inr r"
    by (auto split: sum.splits)
  note ih = Cons.IH[OF l]
  have keys: "fst ` set (resolved r) = fst ` set fileToDeps \<union> set (file0 # rest)"
    using ih by (auto simp: keys_map_set_set)
  have vals: "map_get (resolved r) f
               = (if f \<in> set (file0 # rest) then Some [] else map_get fileToDeps f)"
    if nd: "no_dependencies tree f" for f
  proof (cases "f = file0")
    case True
    with getImportedFiles_empty[OF g] nd have "imported = []" by simp
    with ih nd True show ?thesis by (simp add: map_get_map_set)
  next
    case False
    with ih nd show ?thesis by (simp add: map_get_map_set)
  qed
  from keys vals show ?case by blast
qed

section \<open>The claims on \<open>resolveAndCollect\<close> and \<open>gather\<close>\<close>

text \<open>
  C5 says that \<open>resolveAndCollect\<close> does not abort when the resolver throws, records
  the reference as missing and goes on with the siblings; the comment in the handler
  says the same. On a resolver that throws \<open>undefined\<close> the handler itself throws when it
  reads \<open>e.message\<close>: the call is left by a \<open>TypeError\<close>, the reference \<open>./undef\<close> is
  not in the missing map, and its sibling \<open>./gone\<close>, on which the resolver would fail,
  is never reached. (For a thrown value whose message can be read, and for a resolver
  that returns no path, \<open>unresolved_reference_is_recorded\<close> shows what the claim says.)
\<close>

theorem resolveAndCollect_aborts_on_thrown_undefined:
  "resolveAndCollect example_tree ''/r/a.ts'' (One ''./undef'') empty_collected
     = (Some (TypeError cannotReadMessage),
        \<lparr>importedModules = [], missingModules = [], resolverCalls = [(''/r'', ''./undef'')]\<rparr>)
   \<and> resolveAndCollect example_tree ''/r/a.ts'' (Many [''./undef'', ''./gone'']) empty_collected
     = (Some (TypeError cannotReadMessage),
        \<lparr>importedModules = [], missingModules = [], resolverCalls = [(''/r'', ''./undef'')]\<rparr>)
   \<and> resolveAndCollect example_tree ''/r/a.ts'' (Many [''./gone'']) empty_collected
     = (None,
        \<lparr>importedModules = [], missingModules = [(''/r/a.ts'', [''./gone''])],
           resolverCalls = [(''/r'', ''./gone'')]\<rparr>)"
  by (simp add: empty_collected_def example_tree_def example_base_def
        resolveAndCollect_string_def recordMissing_def map_get_def set_add_def set_has_def)

text \<open>
  C6: a reference that is a built-in module is dropped: the call on it returns and changes
  nothing (neither the imported set nor the missing map nor the calls of the resolver),
  an array gives the same result with and without it, no call of \<open>resolveAndCollect\<close>
  ever passes it to the resolver, and no call adds it to the missing map.
\<close>

theorem resolveAndCollect_builtin:
  assumes "set_has (builtinModules tree) referencedModule"
  shows "resolveAndCollect tree file (One referencedModule) st = (None, st)
       \<and> resolveAndCollect tree file (Many (xs @ referencedModule # ys)) st
           = resolveAndCollect tree file (Many (xs @ ys)) st
       \<and> (\<exists>new. resolverCalls (snd (resolveAndCollect tree file r st)) = resolverCalls st @ new
             \<and> referencedModule \<notin> snd ` set new)
       \<and> (referencedModule
             \<in> missing_of (missingModules (snd (resolveAndCollect tree file r st))) f)
           = (referencedModule \<in> missing_of (missingModules st) f)"
proof -
  have c1: "resolveAndCollect tree file (One referencedModule) st = (None, st)"
    using assms by (simp add: string_builtin)
  have c2: "resolveAndCollect tree file (Many (xs @ referencedModule # ys)) st
           = resolveAndCollect tree file (Many (xs @ ys)) st"
    using assms by (simp add: array_builtin)
  from reference_calls[of tree "file" r st]
  obtain new where new:
    "resolverCalls (snd (resolveAndCollect tree file r st)) = resolverCalls st @ new"
    "\<forall>c \<in> set new. \<not> set_has (builtinModules tree) (snd c)" by blast
  from new(2) assms have "referencedModule \<notin> snd ` set new" by auto
  with new(1) have c3: "\<exists>new. resolverCalls (snd (resolveAndCollect tree file r st))
                            = resolverCalls st @ new \<and> referencedModule \<notin> snd ` set new"
    by blast
  have "\<not> is_missing tree file referencedModule"
    using assms by (simp add: is_missing_def)
  then have c4: "(referencedModule
                    \<in> missing_of (missingModules (snd (resolveAndCollect tree file r st))) f)
           = (referencedModule \<in> missing_of (missingModules st) f)"
    using reference_missing_of[of tree "file" r st f] reference_missing_mono[of st f tree "file" r]
    by auto
  from c1 c2 c3 c4 show ?thesis by blast
qed

theorem resolveAndCollect_builtin_witness:
  "resolveAndCollect example_tree ''/r/a.ts'' (One ''fs'') empty_collected
     = (None, empty_collected)
   \<and> resolveAndCollect example_tree ''/r/a.ts'' (Many [''./b'', ''fs'', ''./gone'']) empty_collected
       = (None,
          \<lparr>importedModules = [''/r/b.ts''], missingModules = [(''/r/a.ts'', [''./gone''])],
             resolverCalls = [(''/r'', ''./b''), (''/r'', ''./gone'')]\<rparr>)"
proof -
  have a: "set_has (builtinModules example_tree) ''fs''"
    by (simp add: example_tree_def example_base_def set_has_def)
  from resolveAndCollect_builtin[OF a, of "''/r/a.ts''" empty_collected "[''./b'']" "[''./gone'']"]
  show ?thesis
    by (simp add: empty_collected_def example_tree_def example_base_def
          resolveAndCollect_string_def recordMissing_def map_get_def set_add_def set_has_def)
qed

text \<open>
  C10: for every file, \<open>resolveAndCollect\<close> on the empty string leaves the missing map
  as it is, whatever the resolver does, also when the call is left by an error.
\<close>

theorem resolveAndCollect_empty_reference:
  "missingModules (snd (resolveAndCollect tree file (One []) st)) = missingModules st"
  by (simp add: resolveAndCollect_string_def recordMissing_def Let_def
           split: resolveResult.splits option.splits thrown.splits)

text \<open>
  C8: when \<open>gather\<close> ends without an error, the keys of the resolved map are exactly
  the files found, and a file with no dependencies has the empty set as its value.
\<close>

theorem gather_keeps_every_file:
  assumes "gather tree = Inr r"
  shows "fst ` set (resolved r) = set (getFiles tree)
       \<and> (\<forall>file \<in> set (getFiles tree). map_has (resolved r) file
             \<and> (no_dependencies tree file \<longrightarrow> map_get (resolved r) file = Some []))"
proof -
  from assms have "gather_loop tree (getFiles tree) (getFiles tree) [] [] = Inr r"
    by (simp add: gather_def Let_def)
  from gather_loop_keys[OF this] show ?thesis
    by (auto simp: map_has_def)
qed

theorem gather_keeps_every_file_witness:
  "gather example_tree
     = Inr \<lparr>missing = [], resolved = [(''/r/a.ts'', [''/r/b.ts'']), (''/r/b.ts'', [])]\<rparr>
   \<and> map_get [(''/r/a.ts'', [''/r/b.ts'']), (''/r/b.ts'', [])] ''/r/b.ts''
       = Some ([] :: path list)"
proof -
  have g: "gather example_tree
             = Inr \<lparr>missing = [], resolved = [(''/r/a.ts'', [''/r/b.ts'']), (''/r/b.ts'', [])]\<rparr>"
    by (simp add: gather_def getFiles_def example_tree_def example_base_def
          example_processor_def getImportedFiles_def resolveAndCollect_string_def
          set_add_def set_has_def)
  have n: "no_dependencies example_tree ''/r/b.ts''"
    by (simp add: no_dependencies_def example_tree_def example_base_def example_processor_def)
  have f: "''/r/b.ts'' \<in> set (getFiles example_tree)"
    by (simp add: getFiles_def example_tree_def example_base_def example_processor_def
          set_add_def set_has_def)
  from gather_keeps_every_file[OF g] n f g show ?thesis by auto
qed

text \<open>
  C7: \<open>gather\<close> called with the batch size \<open>-1\<close>, as the test \<open>rejects a batch size
  less than 1\<close> calls it, reads the files and returns the maps: it never looks at the
  batch size.
\<close>

theorem gather_ignores_batchSize:
  "gather_call example_tree \<lparr>batchSize = Some (- 1)\<rparr>
     = Inr \<lparr>missing = [], resolved = [(''/r/a.ts'', [''/r/b.ts'']), (''/r/b.ts'', [])]\<rparr>"
  by (simp add: gather_call_def gather_def getFiles_def example_tree_def example_base_def
        example_processor_def getImportedFiles_def resolveAndCollect_string_def
        set_add_def set_has_def)

section \<open>Properties of the directive processor\<close>

lemma scan_loop:
  "scan opts xml2js content filePath n = Some (lastIndex, directives) \<Longrightarrow>
   getDirectives opts xml2js content filePath
     = getDirectives_loop opts xml2js content filePath lastIndex directives"
proof (induction n arbitrary: lastIndex directives)
  case 0
  then show ?case by (simp add: getDirectives_def)
next
  case (Suc n)
  from Suc.prems obtain i ds m gs d where
    s: "scan opts xml2js content filePath n = Some (i, ds)"
    and e: "re_exec (reNext opts) (drop i content) = Some (m, gs)"
    and d: "nextDirective opts xml2js content filePath (i + length m) m gs = Inr d"
    and r: "lastIndex = i + length m" "directives = ds @ (case d of None \<Rightarrow> [] | Some x \<Rightarrow> [x])"
    by (auto split: option.splits sum.splits)
  have "getDirectives_loop opts xml2js content filePath i ds
          = getDirectives_loop opts xml2js content filePath lastIndex directives"
    by (subst getDirectives_loop.simps) (simp add: e d r split: option.splits)
  with Suc.IH[OF s] show ?case by simp
qed

lemma split_nonempty: "split c s \<noteq> []"
  by (induction s) (auto split: list.splits)

lemma length_split: "length (split c s) = count_list s c + 1"
  by (induction s) (auto simp: split_nonempty split: list.splits)

lemma split_none: "c \<notin> set s \<Longrightarrow> split c s = [s]"
  by (induction s) auto

lemma last_split: "last (split c s) = rev (takeWhile (\<lambda>x. x \<noteq> c) (rev s))"
proof (induction s)
  case Nil
  then show ?case by simp
next
  case (Cons x xs)
  show ?case
  proof (cases "c \<in> set xs")
    case True
    then have tw: "takeWhile (\<lambda>x. x \<noteq> c) (rev xs @ [x]) = takeWhile (\<lambda>x. x \<noteq> c) (rev xs)"
      by (simp add: takeWhile_append1)
    from True have "count_list xs c \<noteq> 0" by (simp add: count_list_0_iff)
    then have "2 \<le> length (split c xs)" by (simp add: length_split)
    then obtain p q qs where sp: "split c xs = p # q # qs"
      by (cases "split c xs"; cases "tl (split c xs)") auto
    have "last (split c (x # xs)) = last (split c xs)"
      by (simp add: sp)
    with Cons tw show ?thesis by simp
  next
    case False
    then have sp: "split c xs = [xs]" by (rule split_none)
    from False have "takeWhile (\<lambda>x. x \<noteq> c) (rev xs @ [x])
                       = rev xs @ takeWhile (\<lambda>x. x \<noteq> c) [x]"
      by (intro takeWhile_append2) auto
    then show ?thesis by (simp add: sp)
  qed
qed

lemma getNextSymbolPosition_eq:
  "getNextSymbolPosition s =
     (count_list s (CHR 0x0A) + 1, length (takeWhile (\<lambda>x. x \<noteq> CHR 0x0A) (rev s)) + 1)"
proof -
  obtain p ps where sp: "split (CHR 0x0A) s = p # ps"
    using split_nonempty[of "CHR 0x0A" s] by (cases "split (CHR 0x0A) s") auto
  have "getNextSymbolPosition s
          = (length (split (CHR 0x0A) s), length (last (split (CHR 0x0A) s)) + 1)"
    by (simp add: getNextSymbolPosition_def Let_def sp)
  then show ?thesis
    by (simp only: length_split last_split length_rev)
qed

lemma errorPayload_at:
  assumes "indexOf fullMatch groupMatch = int start"
  shows "errorPayload content (lastIndex + length fullMatch) fullMatch groupMatch
           = getNextSymbolPosition (take (lastIndex + start) content)"
proof -
  have e: "int (lastIndex + length fullMatch) - int (length fullMatch) + int start
          = int (lastIndex + start)" by simp
  show ?thesis
    unfolding errorPayload_def assms e slice0_def by (simp add: nat_int_add)
qed

text \<open>
  The validation that the processor does: when the scan stands, after rounds without an
  error, before a unit that the pattern matches with a body, the fragment parses and one of
  its attribute names is not among the allowed ones, a validation error is raised with
  that name, the file path and a position. The position is the line and the column of the
  body when the text of the body does not occur earlier in the unit.
\<close>

lemma validation_error_at_cursor:
  assumes "scan opts xml2js content filePath n = Some (lastIndex, directives)"
    and "re_exec (reNext opts) (drop lastIndex content) = Some (fullMatch, gs)"
    and "map_of gs ''body'' = Some (start, body)"
    and "body \<noteq> []"
    and "indexOf fullMatch body = int start"
    and "xml2js (re_remove_all (reMultilineDirectiveDelimiter opts) body)
           = Parsed ELEMENT_NAME (Some attributes)"
    and "find (\<lambda>key. key \<notin> set allowedAttributes) (map fst attributes) = Some key"
  shows "getDirectives opts xml2js content filePath
           = Inl (DirectiveProcessorValidationError
                    (''Unknown attribute: '' @ quote @ key @ quote) filePath
                    (count_list (take (lastIndex + start) content) (CHR 0x0A) + 1)
                    (length (takeWhile (\<lambda>c. c \<noteq> CHR 0x0A)
                               (rev (take (lastIndex + start) content))) + 1))
       \<and> directive_process opts xml2js tree filePath content missingDeps files
           = Inl (DirectiveProcessorValidationError
                    (''Unknown attribute: '' @ quote @ key @ quote) filePath
                    (count_list (take (lastIndex + start) content) (CHR 0x0A) + 1)
                    (length (takeWhile (\<lambda>c. c \<noteq> CHR 0x0A)
                               (rev (take (lastIndex + start) content))) + 1))"
proof -
  let ?e = "DirectiveProcessorValidationError
              (''Unknown attribute: '' @ quote @ key @ quote) filePath
              (count_list (take (lastIndex + start) content) (CHR 0x0A) + 1)
              (length (takeWhile (\<lambda>c. c \<noteq> CHR 0x0A)
                         (rev (take (lastIndex + start) content))) + 1)"
  have g: "group gs ''body'' = Some body"
    using assms(3,4) by (simp add: group_def)
  have a: "assertDirective (Some attributes)
             = Inl (TypeError (''Unknown attribute: '' @ quote @ key @ quote))"
    using assms(7) by (simp add: assertDirective_def)
  have p: "errorPayload content (lastIndex + length fullMatch) fullMatch body
             = (count_list (take (lastIndex + start) content) (CHR 0x0A) + 1,
                length (takeWhile (\<lambda>c. c \<noteq> CHR 0x0A)
                          (rev (take (lastIndex + start) content))) + 1)"
    by (simp only: errorPayload_at[OF assms(5)] getNextSymbolPosition_eq)
  have nd: "nextDirective opts xml2js content filePath (lastIndex + length fullMatch)
              fullMatch gs = Inl ?e"
    unfolding nextDirective_def by (simp add: g assms(6) a p Let_def)
  have "getDirectives_loop opts xml2js content filePath lastIndex directives = Inl ?e"
    by (subst getDirectives_loop.simps) (simp add: assms(2) nd)
  with scan_loop[OF assms(1)] have gd: "getDirectives opts xml2js content filePath = Inl ?e"
    by simp
  then have "directive_process opts xml2js tree filePath content missingDeps files = Inl ?e"
    by (simp add: directive_process_def)
  with gd show ?thesis by blast
qed

text \<open>A directive on the third line of a file, behind other text, is validated.\<close>

lemma validation_error_on_third_line:
  "getDirectives TSDirectiveProcessor xml2js_example unknown_attribute_content ''/r/a.ts''
     = Inl (DirectiveProcessorValidationError
              (''Unknown attribute: '' @ quote @ ''example'' @ quote) ''/r/a.ts'' 3 12)"
proof -
  have h1: "scan TSDirectiveProcessor xml2js_example unknown_attribute_content ''/r/a.ts'' 1
              = Some (14, [])"
    by code_simp
  have h2: "re_exec (reNext TSDirectiveProcessor) (drop 14 unknown_attribute_content)
              = Some (''foo(); /// '' @ example_body @ [CHR 0x0A], [(''body'', 11, example_body)])"
    by code_simp
  have h3: "map_of [(''body'', 11::nat, example_body)] ''body'' = Some (11, example_body)"
    by simp
  have h4: "example_body \<noteq> []" by (simp add: example_body_def)
  have h5: "indexOf (''foo(); /// '' @ example_body @ [CHR 0x0A]) example_body = int 11"
    by code_simp
  have h6: "xml2js_example
              (re_remove_all (reMultilineDirectiveDelimiter TSDirectiveProcessor) example_body)
              = Parsed ELEMENT_NAME (Some [(''example'', ''demo'')])"
    by code_simp
  have h7: "find (\<lambda>key. key \<notin> set allowedAttributes) (map fst [(''example'', ''demo'')])
              = Some ''example''"
    by (simp add: allowedAttributes_def)
  have c: "count_list (take (14 + 11) unknown_attribute_content) (CHR 0x0A) + 1 = 3"
    by code_simp
  have d: "length (takeWhile (\<lambda>c. c \<noteq> CHR 0x0A)
                     (rev (take (14 + 11) unknown_attribute_content))) + 1 = 12"
    by code_simp
  from validation_error_at_cursor[OF h1 h2 h3 h4 h5 h6 h7]
  show ?thesis unfolding c d by blast
qed

section \<open>The claim on the directive processor\<close>

text \<open>
  What the scan passes over without an error, each content holding a well-formed
  directive with an attribute other than \<open>depends-on\<close> behind the start token: a first
  line that ends with a carriage return and a line feed (nothing of the content is
  scanned), and the first of two directives on one line (only the last is taken). Where
  the text of the body stands on the line before the directive as well, the error is
  raised with the column of that first text, 1, and not with the column of the
  directive, 40.
\<close>

lemma directive_scan_slips:
  "getDirectives TSDirectiveProcessor xml2js_example crlf_content ''/r/a.ts'' = Inr []
   \<and> getDirectives TSDirectiveProcessor xml2js_example two_directives_content ''/r/a.ts''
       = Inr [[(''dependsOn'', ''./b'')]]
   \<and> re_exec (reNext TSDirectiveProcessor) repeated_body_content
       = Some (repeated_body_content, [(''body'', 39, example_body)])
   \<and> getDirectives TSDirectiveProcessor xml2js_example repeated_body_content ''/r/a.ts''
       = Inl (DirectiveProcessorValidationError
                (''Unknown attribute: '' @ quote @ ''example'' @ quote) ''/r/a.ts'' 1 1)"
proof -
  have a: "getDirectives TSDirectiveProcessor xml2js_example crlf_content ''/r/a.ts'' = Inr []"
    by code_simp
  have b: "getDirectives TSDirectiveProcessor xml2js_example two_directives_content ''/r/a.ts''
       = Inr [[(''dependsOn'', ''./b'')]]"
    by code_simp
  have c: "re_exec (reNext TSDirectiveProcessor) repeated_body_content
             = Some (repeated_body_content, [(''body'', 39, example_body)])"
    by code_simp
  have d: "getDirectives TSDirectiveProcessor xml2js_example repeated_body_content ''/r/a.ts''
       = Inl (DirectiveProcessorValidationError
                (''Unknown attribute: '' @ quote @ ''example'' @ quote) ''/r/a.ts'' 1 1)"
    by code_simp
  from a b c d show ?thesis by blast
qed

text \<open>
  C9 says that every file that holds a well-formed directive with an attribute other than
  \<open>depends-on\<close> gets a validation error with the name of the attribute and the position
  of the directive; the documentation of the directive says that such attributes cause a
  validation error and that a directive may stand anywhere in a file. The file whose
  first line is empty and whose second line is the directive with the attribute \<open>foo\<close>
  gets none: the pattern of the scan matches nothing at a line feed, the loop ends at once,
  and the processor returns no directive and no dependency. Without the empty line the
  same directive raises the validation error, at line 1, column 5.
\<close>

theorem directive_after_empty_line_is_not_validated:
  "blank_line_content = [CHR 0x0A] @ ''/// '' @ foo_body
   \<and> xml2js_example foo_body = Parsed ''dependency-tree'' (Some [(''foo'', ''x'')])
   \<and> getDirectives TSDirectiveProcessor xml2js_example blank_line_content ''/r/a.ts'' = Inr []
   \<and> directive_process TSDirectiveProcessor xml2js_example example_tree ''/r/a.ts''
         blank_line_content [] [] = Inr ([], [])
   \<and> getDirectives TSDirectiveProcessor xml2js_example (''/// '' @ foo_body) ''/r/a.ts''
       = Inl (DirectiveProcessorValidationError
                (''Unknown attribute: '' @ quote @ ''foo'' @ quote) ''/r/a.ts'' 1 5)"
proof -
  have a: "blank_line_content = [CHR 0x0A] @ ''/// '' @ foo_body"
    by (simp add: blank_line_content_def)
  have b: "xml2js_example foo_body = Parsed ''dependency-tree'' (Some [(''foo'', ''x'')])"
    by code_simp
  have c: "getDirectives TSDirectiveProcessor xml2js_example blank_line_content ''/r/a.ts''
             = Inr []"
    by code_simp
  have d: "directive_process TSDirectiveProcessor xml2js_example example_tree ''/r/a.ts''
             blank_line_content [] [] = Inr ([], [])"
    by (simp add: directive_process_def c)
  have e: "getDirectives TSDirectiveProcessor xml2js_example (''/// '' @ foo_body) ''/r/a.ts''
       = Inl (DirectiveProcessorValidationError
                (''Unknown attribute: '' @ quote @ ''foo'' @ quote) ''/r/a.ts'' 1 5)"
    by code_simp
  from a b c d e show ?thesis by blast
qed

end
